theory Spec2Isabelle
  imports Main "HOL-Library.Word"
begin

unbundle bit_operations_syntax

section \<open>Data model of pm\_slave.c\<close>

text \<open>
  The slave code works on 32-bit capability masks and latencies (\<open>u32\<close>) and on state
  identifiers. The headers that declare \<open>PmStateId\<close>, \<open>PmSlaveFsm\<close>, \<open>PmNode\<close> and
  \<open>PmRequirement\<close> are not part of the sources at hand; the widths below are the ones the
  code of pm\_slave.c itself relies on: \<open>PmStateId highestState = statesCnt - 1\<close> and the
  loop counter \<open>PmStateId i\<close> compared with \<open>statesCnt\<close> treat state identifiers and the
  two table sizes as bytes.
\<close>

type_synonym u32 = "32 word"
type_synonym u8 = "8 word"
type_synonym PmStateId = u8

text \<open>
  Status codes. The code only ever compares a status with \<open>XST_SUCCESS\<close> and hands the
  others through, so the codes are a datatype; \<open>XST_OTHER\<close> stands for any further code a
  collaborator may return.
\<close>

datatype status =
  XST_SUCCESS | XST_FAILURE | XST_NO_FEATURE | XST_PM_CONFLICT | XST_PM_NODE_USED
  | XST_OTHER nat

text \<open>
  The macro constants of the missing headers are parameters of the model: every
  function that uses one takes the record \<open>d\<close> of their values.
\<close>

record pm_defs =
  PM_MASTER_USING_SLAVE_MASK :: u32
  PM_MASTER_SET_LATENCY_REQ :: u32
  PM_CAP_POWER :: u32
  PM_CAP_CLOCK :: u32
  PM_SLAVE_FLAG_IS_SHAREABLE :: u32

text \<open>
  Modelled from the spec: the macro \<open>MAX_LATENCY\<close> of the missing header pm\_common.h,
  the "unbounded" sentinel that section 4.4 describes as the maximum representable value.
\<close>

definition MAX_LATENCY :: u32 where
  "MAX_LATENCY = NOT 0"

record PmMaster =
  ipiMask :: u32

text \<open>
  A requirement: the link to the master, the flag bits \<open>info\<close>, the granted
  capabilities \<open>currReq\<close> and the latency bound \<open>latencyReq\<close>. The list a slave keeps
  through \<open>nextMaster\<close> is a HOL list, \<open>NULL\<close> being the empty list.
\<close>

record PmRequirement =
  master :: PmMaster
  info :: u32
  currReq :: u32
  latencyReq :: u32

record PmStateTran =
  fromState :: PmStateId
  toState :: PmStateId
  latency :: u32

text \<open>
  The power parent of a node, reduced to what pm\_slave.c reads of it: the
  \<open>getWakeUpLatency\<close> method of its node class (\<open>None\<close> when the class has none).
\<close>

record 'w PmPower =
  getWakeUpLatency :: "('w \<Rightarrow> status \<times> u32) option"

record 'w PmNode =
  currState :: PmStateId
  latencyMarg :: u32
  parent :: "'w PmPower option"
  clocks :: bool

text \<open>
  The FSM of a slave. \<open>'w\<close> is the state of the hardware and of the collaborating
  modules (power parents, clocks). The transition action \<open>enterState\<close> reads the node it
  is called for and the state to enter, and may change \<open>'w\<close>; \<open>None\<close> is the \<open>NULL\<close>
  function pointer.
\<close>

record 'w PmSlaveFsm =
  states :: "u32 list"
  enterState :: "('w PmNode \<Rightarrow> PmStateId \<Rightarrow> 'w \<Rightarrow> status \<times> 'w) option"
  trans :: "PmStateTran list"
  statesCnt :: u8
  transCnt :: u8

record 'w PmSlave =
  node :: "'w PmNode"
  reqs :: "PmRequirement list"
  wake :: bool
  slvFsm :: "'w PmSlaveFsm"
  flags :: u32

text \<open>
  The arrays \<open>states\<close> and \<open>trans\<close> hold exactly \<open>statesCnt\<close> and \<open>transCnt\<close> entries.
  The C code reads them unchecked, so the theorems below assume this of the tables.
\<close>

definition fsm_wf :: "'w PmSlaveFsm \<Rightarrow> bool" where
  "fsm_wf fsm \<longleftrightarrow>
     length (states fsm) = unat (statesCnt fsm) \<and> length (trans fsm) = unat (transCnt fsm)"

section \<open>Loop counters\<close>

text \<open>
  The \<open>for\<close> loops of the code count a machine integer up to a bound. A counter below
  its bound does not wrap when it is incremented, which is what makes each loop end.
\<close>

lemma word_loop_decr:
  "(i :: 'a::len word) < c \<Longrightarrow> unat c - unat (i + 1) < unat c - unat i"
proof -
  assume h: "i < c"
  have lt: "unat i < unat c" using h by (simp add: word_less_nat_alt)
  moreover have "unat c < 2 ^ LENGTH('a)" by (rule unsigned_less)
  ultimately have "Suc (unat i) < 2 ^ LENGTH('a)" by linarith
  then have "unat (i + 1) = Suc (unat i)" by (simp add: unat_word_ariths)
  with lt show ?thesis by linarith
qed

section \<open>Aggregation over the requirements\<close>

text \<open>\<open>PmGetMaxCapabilities\<close>: the \<open>while\<close> loop over the list, \<open>maxCaps\<close> being the accumulator.\<close>

fun PmGetMaxCapabilities_loop :: "pm_defs \<Rightarrow> PmRequirement list \<Rightarrow> u32 \<Rightarrow> u32" where
  "PmGetMaxCapabilities_loop d [] maxCaps = maxCaps"
| "PmGetMaxCapabilities_loop d (req # nextMaster) maxCaps =
     PmGetMaxCapabilities_loop d nextMaster
       (if 0 \<noteq> (PM_MASTER_USING_SLAVE_MASK d AND info req) then maxCaps OR currReq req
        else maxCaps)"

definition PmGetMaxCapabilities :: "pm_defs \<Rightarrow> 'w PmSlave \<Rightarrow> u32" where
  "PmGetMaxCapabilities d slave = PmGetMaxCapabilities_loop d (reqs slave) 0"

text \<open>\<open>PmGetMinRequestedLatency\<close>, the same traversal with a running minimum.\<close>

fun PmGetMinRequestedLatency_loop :: "pm_defs \<Rightarrow> PmRequirement list \<Rightarrow> u32 \<Rightarrow> u32" where
  "PmGetMinRequestedLatency_loop d [] minLatency = minLatency"
| "PmGetMinRequestedLatency_loop d (req # nextMaster) minLatency =
     PmGetMinRequestedLatency_loop d nextMaster
       (if 0 \<noteq> (PM_MASTER_SET_LATENCY_REQ d AND info req) then
          (if minLatency > latencyReq req then latencyReq req else minLatency)
        else minLatency)"

definition PmGetMinRequestedLatency :: "pm_defs \<Rightarrow> 'w PmSlave \<Rightarrow> u32" where
  "PmGetMinRequestedLatency d slave = PmGetMinRequestedLatency_loop d (reqs slave) MAX_LATENCY"

text \<open>\<open>PmSlaveGetUsersMask\<close>: the masks of the masters that use the slave, ORed.\<close>

fun PmSlaveGetUsersMask_loop :: "pm_defs \<Rightarrow> PmRequirement list \<Rightarrow> u32 \<Rightarrow> u32" where
  "PmSlaveGetUsersMask_loop d [] usage = usage"
| "PmSlaveGetUsersMask_loop d (req # nextMaster) usage =
     PmSlaveGetUsersMask_loop d nextMaster
       (if 0 \<noteq> (PM_MASTER_USING_SLAVE_MASK d AND info req) then usage OR ipiMask (master req)
        else usage)"

definition PmSlaveGetUsersMask :: "pm_defs \<Rightarrow> 'w PmSlave \<Rightarrow> u32" where
  "PmSlaveGetUsersMask d slave = PmSlaveGetUsersMask_loop d (reqs slave) 0"

section \<open>State selection\<close>

text \<open>
  \<open>PmGetStateWithCaps\<close>. The counter \<open>i\<close> is a \<open>PmStateId\<close>; the result pointer \<open>state\<close>
  is an option (\<open>None\<close> for \<open>NULL\<close>, \<open>Some v\<close> for a variable that holds \<open>v\<close>) and is
  returned with the status.
\<close>

function PmGetStateWithCaps_loop ::
  "'w PmSlave \<Rightarrow> u32 \<Rightarrow> PmStateId option \<Rightarrow> PmStateId \<Rightarrow> status \<times> PmStateId option" where
  "PmGetStateWithCaps_loop slave caps state i =
     (if i < statesCnt (slvFsm slave) then
        (if (caps AND states (slvFsm slave) ! unat i) = caps then
           (XST_SUCCESS, if state \<noteq> None then Some i else state)
         else PmGetStateWithCaps_loop slave caps state (i + 1))
      else (XST_PM_CONFLICT, state))"
  by pat_completeness auto
termination
  by (relation "measure (\<lambda>(slave, caps, state, i). unat (statesCnt (slvFsm slave)) - unat i)")
    (simp_all add: word_loop_decr)

declare PmGetStateWithCaps_loop.simps [simp del]

definition PmGetStateWithCaps ::
  "'w PmSlave \<Rightarrow> u32 \<Rightarrow> PmStateId option \<Rightarrow> status \<times> PmStateId option" where
  "PmGetStateWithCaps slave caps state = PmGetStateWithCaps_loop slave caps state 0"

text \<open>
  \<open>PmGetLatencyFromState\<close>. The counter \<open>i\<close> is a \<open>u32\<close> compared with the byte
  \<open>transCnt\<close>; \<open>highestState = statesCnt - 1\<close> is computed in a byte and wraps to 255 for an
  empty table.
\<close>

function PmGetLatencyFromState_loop ::
  "'w PmSlave \<Rightarrow> PmStateId \<Rightarrow> PmStateId \<Rightarrow> u32 \<Rightarrow> u32" where
  "PmGetLatencyFromState_loop slave state highestState i =
     (if i < ucast (transCnt (slvFsm slave)) then
        (if state = fromState (trans (slvFsm slave) ! unat i) \<and>
            highestState = toState (trans (slvFsm slave) ! unat i)
         then latency (trans (slvFsm slave) ! unat i)
         else PmGetLatencyFromState_loop slave state highestState (i + 1))
      else 0)"
  by pat_completeness auto
termination
  by (relation "measure (\<lambda>(slave, state, highestState, i).
        unat (ucast (transCnt (slvFsm slave)) :: u32) - unat i)")
    (simp_all add: word_loop_decr)

declare PmGetLatencyFromState_loop.simps [simp del]

definition PmGetLatencyFromState :: "'w PmSlave \<Rightarrow> PmStateId \<Rightarrow> u32" where
  "PmGetLatencyFromState slave state =
     PmGetLatencyFromState_loop slave state (statesCnt (slvFsm slave) - 1) 0"

text \<open>
  \<open>PmConstrainStateByLatency\<close>. The counter is a \<open>u32\<close> that starts at \<open>*state\<close>; it is
  narrowed to a \<open>PmStateId\<close> where it is passed to \<open>PmGetLatencyFromState\<close> and stored in
  \<open>*state\<close>. The function returns the status with the final \<open>*state\<close>.
\<close>

function PmConstrainStateByLatency_loop ::
  "'w PmSlave \<Rightarrow> PmStateId \<Rightarrow> u32 \<Rightarrow> u32 \<Rightarrow> u32 \<Rightarrow> status \<times> PmStateId" where
  "PmConstrainStateByLatency_loop slave state capsToSet minLatency i =
     (if i < ucast (statesCnt (slvFsm slave)) then
        (if (capsToSet AND states (slvFsm slave) ! unat i) \<noteq> capsToSet then
           PmConstrainStateByLatency_loop slave state capsToSet minLatency (i + 1)
         else if PmGetLatencyFromState slave (ucast i) > minLatency then
           PmConstrainStateByLatency_loop slave state capsToSet minLatency (i + 1)
         else (XST_SUCCESS, ucast i))
      else (XST_PM_CONFLICT, state))"
  by pat_completeness auto
termination
  by (relation "measure (\<lambda>(slave, state, capsToSet, minLatency, i).
        unat (ucast (statesCnt (slvFsm slave)) :: u32) - unat i)")
    (simp_all add: word_loop_decr)

declare PmConstrainStateByLatency_loop.simps [simp del]

definition PmConstrainStateByLatency ::
  "'w PmSlave \<Rightarrow> PmStateId \<Rightarrow> u32 \<Rightarrow> u32 \<Rightarrow> status \<times> PmStateId" where
  "PmConstrainStateByLatency slave state capsToSet minLatency =
     PmConstrainStateByLatency_loop slave state capsToSet minLatency (ucast state)"

section \<open>Collaborators and their calls\<close>

text \<open>
  The power and clock modules are not part of pm\_slave.c. Their entry points are
  parameters: each reads the node it is called for and the outside state \<open>'w\<close>, and
  returns the new \<open>'w\<close>, with a status where the C function has one. They do not write to
  the slave itself.
\<close>

record 'w collab =
  PmPowerRequestParent :: "'w PmNode \<Rightarrow> 'w \<Rightarrow> status \<times> 'w"
  PmPowerReleaseParent :: "'w PmNode \<Rightarrow> 'w \<Rightarrow> 'w"
  PmClockRequest :: "'w PmNode \<Rightarrow> 'w \<Rightarrow> status \<times> 'w"
  PmClockRelease :: "'w PmNode \<Rightarrow> 'w \<Rightarrow> 'w"
  PmPowerUpdateLatencyReq :: "'w PmNode \<Rightarrow> 'w \<Rightarrow> status \<times> 'w"

text \<open>
  Every call that leaves pm\_slave.c is recorded, in order, with the status it returned:
  the environment is the outside state together with this log.
\<close>

datatype call =
  PowerRequestParent status
  | ClockRequest status
  | EnterState PmStateId status
  | ClockRelease
  | PowerReleaseParent
  | PowerUpdateLatencyReq status

record 'w env =
  hw :: 'w
  calls :: "call list"

definition call_status ::
  "(status \<Rightarrow> call) \<Rightarrow> ('w \<Rightarrow> status \<times> 'w) \<Rightarrow> 'w env \<Rightarrow> status \<times> 'w env" where
  "call_status ev f e =
     (case f (hw e) of (st, w) \<Rightarrow> (st, \<lparr>hw = w, calls = calls e @ [ev st]\<rparr>))"

definition call_void :: "call \<Rightarrow> ('w \<Rightarrow> 'w) \<Rightarrow> 'w env \<Rightarrow> 'w env" where
  "call_void ev f e = \<lparr>hw = f (hw e), calls = calls e @ [ev]\<rparr>"

text \<open>
  Modelled from the spec: \<open>PmNodeUpdateCurrState\<close> of the missing pm\_node.c, which
  section 4.6 (Settle) describes as updating the recorded current state of the resource.
\<close>

definition PmNodeUpdateCurrState :: "'w PmNode \<Rightarrow> PmStateId \<Rightarrow> 'w PmNode" where
  "PmNodeUpdateCurrState nd newState = nd\<lparr>currState := newState\<rparr>"

text \<open>
  Modelled from the spec: the macro \<open>HAS_CAPABILITIES\<close> of the missing pm\_slave.h; section
  4.7 uses it for "the state includes the capability".
\<close>

definition HAS_CAPABILITIES :: "'w PmSlave \<Rightarrow> PmStateId \<Rightarrow> u32 \<Rightarrow> bool" where
  "HAS_CAPABILITIES slave state caps \<longleftrightarrow>
     caps = (caps AND states (slvFsm slave) ! unat state)"

section \<open>Changing the state\<close>

text \<open>
  \<open>PmSlavePrepareState\<close>. A failed power request jumps to \<open>done\<close>; otherwise the clock
  check follows and its status, where the clock is requested, is the result.
\<close>

definition PmSlavePrepareState ::
  "pm_defs \<Rightarrow> 'w collab \<Rightarrow> 'w PmSlave \<Rightarrow> PmStateId \<Rightarrow> 'w env \<Rightarrow> status \<times> 'w env" where
  "PmSlavePrepareState d c slv next e =
     (let curr = currState (node slv);
          (status, e1) =
            (if parent (node slv) \<noteq> None \<and>
                0 = (states (slvFsm slv) ! unat curr AND PM_CAP_POWER d) \<and>
                0 \<noteq> (states (slvFsm slv) ! unat next AND PM_CAP_POWER d)
             then call_status PowerRequestParent (PmPowerRequestParent c (node slv)) e
             else (XST_SUCCESS, e))
      in if XST_SUCCESS \<noteq> status then (status, e1)
         else if clocks (node slv) \<and>
                 0 = (states (slvFsm slv) ! unat curr AND PM_CAP_CLOCK d) \<and>
                 0 \<noteq> (states (slvFsm slv) ! unat next AND PM_CAP_CLOCK d)
         then call_status ClockRequest (PmClockRequest c (node slv)) e1
         else (status, e1))"

text \<open>\<open>PmSlaveClearAfterState\<close>, called once the node holds the new state.\<close>

definition PmSlaveClearAfterState ::
  "pm_defs \<Rightarrow> 'w collab \<Rightarrow> 'w PmSlave \<Rightarrow> PmStateId \<Rightarrow> 'w env \<Rightarrow> 'w env" where
  "PmSlaveClearAfterState d c slv prev e =
     (let curr = currState (node slv);
          e1 = (if clocks (node slv) \<and>
                   0 \<noteq> (states (slvFsm slv) ! unat prev AND PM_CAP_CLOCK d) \<and>
                   0 = (states (slvFsm slv) ! unat curr AND PM_CAP_CLOCK d)
                then call_void ClockRelease (PmClockRelease c (node slv)) e
                else e)
      in if parent (node slv) \<noteq> None \<and>
            0 \<noteq> (states (slvFsm slv) ! unat prev AND PM_CAP_POWER d) \<and>
            0 = (states (slvFsm slv) ! unat curr AND PM_CAP_POWER d)
         then call_void PowerReleaseParent (PmPowerReleaseParent c (node slv)) e1
         else e1)"

text \<open>
  The transition search of \<open>PmSlaveChangeState\<close>: the \<open>for\<close> loop over the transitions,
  entered with the status assumed before it. The first entry from the current state to
  the target ends the loop, with the status of the action where the FSM has one.
\<close>

function PmSlaveChangeState_loop ::
  "'w PmSlave \<Rightarrow> PmStateId \<Rightarrow> status \<Rightarrow> 'w env \<Rightarrow> u32 \<Rightarrow> status \<times> 'w env" where
  "PmSlaveChangeState_loop slave state status e t =
     (if t < ucast (transCnt (slvFsm slave)) then
        (if fromState (trans (slvFsm slave) ! unat t) \<noteq> currState (node slave) \<or>
            toState (trans (slvFsm slave) ! unat t) \<noteq> state
         then PmSlaveChangeState_loop slave state status e (t + 1)
         else (case enterState (slvFsm slave) of
                 Some action \<Rightarrow> call_status (EnterState state) (action (node slave) state) e
               | None \<Rightarrow> (XST_SUCCESS, e)))
      else (status, e))"
  by pat_completeness auto
termination
  by (relation "measure (\<lambda>(slave, state, status, e, t).
        unat (ucast (transCnt (slvFsm slave)) :: u32) - unat t)")
    (simp_all add: word_loop_decr)

declare PmSlaveChangeState_loop.simps [simp del]

text \<open>
  The part of \<open>PmSlaveChangeState\<close> between the preparation and the label \<open>done\<close>: the
  status is success for an FSM without transitions and failure otherwise, until the
  search finds the transition.
\<close>

definition PmSlaveChangeState_apply ::
  "'w PmSlave \<Rightarrow> PmStateId \<Rightarrow> 'w env \<Rightarrow> status \<times> 'w env" where
  "PmSlaveChangeState_apply slave state e =
     PmSlaveChangeState_loop slave state
       (if 0 = transCnt (slvFsm slave) then XST_SUCCESS else XST_FAILURE) e 0"

definition PmSlaveChangeState ::
  "pm_defs \<Rightarrow> 'w collab \<Rightarrow> 'w PmSlave \<Rightarrow> PmStateId \<Rightarrow> 'w env \<Rightarrow>
   status \<times> 'w PmSlave \<times> 'w env" where
  "PmSlaveChangeState d c slave state e =
     (let oldState = currState (node slave);
          (status1, e1) = PmSlavePrepareState d c slave state e;
          (status, e2) =
            (if XST_SUCCESS \<noteq> status1 then (status1, e1)
             else PmSlaveChangeState_apply slave state e1)
      in if oldState \<noteq> state \<and> XST_SUCCESS = status then
           (let slave' = slave\<lparr>node := PmNodeUpdateCurrState (node slave) state\<rparr>
            in (status, slave', PmSlaveClearAfterState d c slave' oldState e2))
         else (status, slave, e2))"

section \<open>Updating a slave\<close>

text \<open>
  \<open>PmUpdateSlave\<close> up to the assignment of \<open>latencyMarg\<close>: the state is chosen from the
  capabilities and then constrained by the latency. \<open>Inl\<close> is a jump to \<open>done\<close> with
  the status of the failed search; \<open>Inr\<close> carries the values of \<open>state\<close>, \<open>minLat\<close> and
  \<open>wkupLat\<close> with which the assignment is reached.
\<close>

definition PmUpdateSlave_resolve ::
  "pm_defs \<Rightarrow> 'w PmSlave \<Rightarrow> status + (PmStateId \<times> u32 \<times> u32)" where
  "PmUpdateSlave_resolve d slave =
     (let caps = PmGetMaxCapabilities d slave;
          (status, state) =
            (if 0 \<noteq> caps then
               (case PmGetStateWithCaps slave caps (Some 0) of
                  (st, out) \<Rightarrow> (st, case out of Some s \<Rightarrow> s | None \<Rightarrow> 0))
             else (XST_SUCCESS, 0))
      in if XST_SUCCESS \<noteq> status then Inl status
         else
           (let minLat = PmGetMinRequestedLatency d slave;
                wkupLat = PmGetLatencyFromState slave state
            in if wkupLat > minLat then
                 (case PmConstrainStateByLatency slave state caps minLat of
                    (status', state') \<Rightarrow>
                      if XST_SUCCESS \<noteq> status' then Inl status'
                      else Inr (state', minLat, PmGetLatencyFromState slave state'))
               else Inr (state, minLat, wkupLat)))"

definition PmUpdateSlave ::
  "pm_defs \<Rightarrow> 'w collab \<Rightarrow> 'w PmSlave \<Rightarrow> 'w env \<Rightarrow> status \<times> 'w PmSlave \<times> 'w env" where
  "PmUpdateSlave d c slave e =
     (case PmUpdateSlave_resolve d slave of
        Inl status \<Rightarrow> (status, slave, e)
      | Inr (state, minLat, wkupLat) \<Rightarrow>
          (let slave1 = slave\<lparr>node := (node slave)\<lparr>latencyMarg := minLat - wkupLat\<rparr>\<rparr>
           in if state \<noteq> currState (node slave1) then PmSlaveChangeState d c slave1 state e
              else if \<not> HAS_CAPABILITIES slave1 state (PM_CAP_POWER d) then
                (case call_status PowerUpdateLatencyReq
                        (PmPowerUpdateLatencyReq c (node slave1)) e of
                   (status, e') \<Rightarrow> (status, slave1, e'))
              else (XST_SUCCESS, slave1, e)))"

section \<open>Configuration\<close>

text \<open>
  The master registry and the requirement pool belong to other modules; pm\_slave.c
  reaches them through \<open>PmGetMasterByIpiMask\<close> (\<open>None\<close> for \<open>NULL\<close>) and
  \<open>PmRequirementAdd\<close>, which returns a status and leaves the new binding in the slave.
\<close>

record 'w masters =
  PmGetMasterByIpiMask :: "u32 \<Rightarrow> PmMaster option"
  PmRequirementAdd :: "PmMaster \<Rightarrow> 'w PmSlave \<Rightarrow> status \<times> 'w PmSlave"

text \<open>
  The compiler builtins: the number of set bits, and the number of zero bits below the
  lowest set bit (32 here for the argument 0, where the builtin is undefined).
\<close>

definition popcount :: "u32 \<Rightarrow> u32" where
  "popcount w = of_nat (length (filter (bit w) [0..<32]))"

definition ctz :: "u32 \<Rightarrow> nat" where
  "ctz w = length (takeWhile (\<lambda>n. \<not> bit w n) [0..<32])"

function PmSlaveSetConfig_loop ::
  "'w masters \<Rightarrow> 'w PmSlave \<Rightarrow> u32 \<Rightarrow> u32 \<Rightarrow> u32 \<Rightarrow> status \<times> 'w PmSlave" where
  "PmSlaveSetConfig_loop m slave masterIpiMasks i masterCnt =
     (if i < masterCnt then
        (let ipiMask = push_bit (ctz masterIpiMasks) 1
         in case PmGetMasterByIpiMask m ipiMask of
              None \<Rightarrow> (XST_FAILURE, slave)
            | Some mst \<Rightarrow>
                (case PmRequirementAdd m mst slave of
                   (status, slave') \<Rightarrow>
                     if XST_SUCCESS \<noteq> status then (status, slave')
                     else PmSlaveSetConfig_loop m slave' (masterIpiMasks AND NOT ipiMask)
                            (i + 1) masterCnt))
      else (XST_SUCCESS, slave))"
  by pat_completeness auto
termination
  by (relation "measure (\<lambda>(m, slave, masterIpiMasks, i, masterCnt). unat masterCnt - unat i)")
    (simp_all add: word_loop_decr)

declare PmSlaveSetConfig_loop.simps [simp del]

definition PmSlaveSetConfig ::
  "pm_defs \<Rightarrow> 'w masters \<Rightarrow> 'w PmSlave \<Rightarrow> u32 \<Rightarrow> u32 \<Rightarrow> status \<times> 'w PmSlave" where
  "PmSlaveSetConfig d m slave policy perms =
     (let slave1 =
            (if 0 \<noteq> (policy AND PM_SLAVE_FLAG_IS_SHAREABLE d)
             then slave\<lparr>flags := flags slave OR PM_SLAVE_FLAG_IS_SHAREABLE d\<rparr>
             else slave)
      in PmSlaveSetConfig_loop m slave1 perms 0 (popcount perms))"

text \<open>
  What the configuration loop amounts to: the set bits of \<open>perms\<close>, lowest first, each
  resolved to its master and bound, up to the first failure.
\<close>

definition set_bits :: "u32 \<Rightarrow> nat list" where
  "set_bits w = filter (bit w) [0..<32]"

fun bind_masks :: "'w masters \<Rightarrow> 'w PmSlave \<Rightarrow> nat list \<Rightarrow> status \<times> 'w PmSlave" where
  "bind_masks m slave [] = (XST_SUCCESS, slave)"
| "bind_masks m slave (n # ns) =
     (case PmGetMasterByIpiMask m (push_bit n 1) of
        None \<Rightarrow> (XST_FAILURE, slave)
      | Some mst \<Rightarrow>
          (case PmRequirementAdd m mst slave of
             (status, slave') \<Rightarrow>
               if XST_SUCCESS \<noteq> status then (status, slave') else bind_masks m slave' ns))"

text \<open>
  Modelled from the spec: \<open>PmRequirementAdd\<close> of the missing pm\_requirement.c, which
  section 4.9 describes as creating, or reusing, the binding of the requester to the
  resource. A new binding is inactive and sets no latency bound.
\<close>

definition PmRequirementAdd_spec :: "PmMaster \<Rightarrow> 'w PmSlave \<Rightarrow> status \<times> 'w PmSlave" where
  "PmRequirementAdd_spec mst slave =
     (if find (\<lambda>r. master r = mst) (reqs slave) \<noteq> None then (XST_SUCCESS, slave)
      else (XST_SUCCESS,
            slave\<lparr>reqs := \<lparr>master = mst, info = 0, currReq = 0, latencyReq = MAX_LATENCY\<rparr>
                           # reqs slave\<rparr>))"

section \<open>Wake-up latency and forcing down\<close>

text \<open>
  \<open>PmSlaveGetWakeUpLatency\<close>. \<open>lat\<close> is the value the caller's variable holds before
  the call; the result is the status with the value it holds afterwards. The C code
  dereferences the power parent unchecked: \<open>None\<close> is that undefined behaviour.
\<close>

definition PmSlaveGetWakeUpLatency ::
  "'w PmSlave \<Rightarrow> u32 \<Rightarrow> 'w \<Rightarrow> (status \<times> u32) option" where
  "PmSlaveGetWakeUpLatency slave lat w =
     (case parent (node slave) of
        None \<Rightarrow> None
      | Some powerNode \<Rightarrow>
          (let lat1 = PmGetLatencyFromState slave (currState (node slave))
           in case getWakeUpLatency powerNode of
                None \<Rightarrow> Some (XST_NO_FEATURE, lat1)
              | Some method \<Rightarrow>
                  (case method w of
                     (status, latency') \<Rightarrow>
                       Some (status, if XST_SUCCESS = status then lat1 + latency' else lat1))))"

text \<open>
  Modelled from the spec: \<open>PmRequirementClear\<close> of the missing pm\_requirement.c, which
  section 4.1 describes as marking the entry inactive: the usage flag is cleared and the
  granted capabilities and the latency contribution are reset.
\<close>

definition PmRequirementClear :: "pm_defs \<Rightarrow> PmRequirement \<Rightarrow> PmRequirement" where
  "PmRequirementClear d req =
     req\<lparr>info := info req AND NOT (PM_MASTER_USING_SLAVE_MASK d),
         currReq := 0, latencyReq := MAX_LATENCY\<rparr>"

text \<open>\<open>PmSlaveForceDown\<close>: the loop over the requirements, then the change to state 0.\<close>

fun PmSlaveForceDown_loop :: "pm_defs \<Rightarrow> PmRequirement list \<Rightarrow> PmRequirement list" where
  "PmSlaveForceDown_loop d [] = []"
| "PmSlaveForceDown_loop d (req # nextMaster) =
     (if 0 \<noteq> (PM_MASTER_USING_SLAVE_MASK d AND info req) then PmRequirementClear d req
      else req) # PmSlaveForceDown_loop d nextMaster"

definition PmSlaveForceDown ::
  "pm_defs \<Rightarrow> 'w collab \<Rightarrow> 'w PmSlave \<Rightarrow> 'w env \<Rightarrow> status \<times> 'w PmSlave \<times> 'w env" where
  "PmSlaveForceDown d c slave e =
     (let slave1 = slave\<lparr>reqs := PmSlaveForceDown_loop d (reqs slave)\<rparr>
      in if 0 \<noteq> currState (node slave1) then PmSlaveChangeState d c slave1 0 e
         else (XST_SUCCESS, slave1, e))"

section \<open>A slave to evaluate on\<close>

text \<open>
  The three-state resource of the scenarios: state 0 offers nothing, state 1 power,
  state 2 power and clock. The outside state counts the power-parent and the clock
  requests that are in force.
\<close>

definition ex_defs :: pm_defs where
  "ex_defs = \<lparr>PM_MASTER_USING_SLAVE_MASK = 2, PM_MASTER_SET_LATENCY_REQ = 4,
              PM_CAP_POWER = 8, PM_CAP_CLOCK = 16, PM_SLAVE_FLAG_IS_SHAREABLE = 1\<rparr>"

definition ex_fsm :: "(int \<times> int) PmSlaveFsm" where
  "ex_fsm = \<lparr>states = [0, 8, 24], enterState = None,
             trans = [\<lparr>fromState = 0, toState = 2, latency = 100\<rparr>,
                      \<lparr>fromState = 1, toState = 2, latency = 50\<rparr>,
                      \<lparr>fromState = 0, toState = 1, latency = 30\<rparr>,
                      \<lparr>fromState = 2, toState = 0, latency = 0\<rparr>,
                      \<lparr>fromState = 1, toState = 0, latency = 0\<rparr>],
             statesCnt = 3, transCnt = 5\<rparr>"

definition ex_slave :: "(int \<times> int) PmSlave" where
  "ex_slave = \<lparr>node = \<lparr>currState = 0, latencyMarg = 0,
                        parent = Some \<lparr>getWakeUpLatency = None\<rparr>, clocks = True\<rparr>,
               reqs = [\<lparr>master = \<lparr>ipiMask = 1\<rparr>, info = 2, currReq = 16, latencyReq = 0\<rparr>,
                       \<lparr>master = \<lparr>ipiMask = 2\<rparr>, info = 2, currReq = 8, latencyReq = 0\<rparr>,
                       \<lparr>master = \<lparr>ipiMask = 4\<rparr>, info = 0, currReq = 32, latencyReq = 0\<rparr>],
               wake = False, slvFsm = ex_fsm, flags = 0\<rparr>"

definition ex_collab :: "(int \<times> int) collab" where
  "ex_collab = \<lparr>PmPowerRequestParent = (\<lambda>nd (p, k). (XST_SUCCESS, (p + 1, k))),
                PmPowerReleaseParent = (\<lambda>nd (p, k). (p - 1, k)),
                PmClockRequest = (\<lambda>nd (p, k). (XST_SUCCESS, (p, k + 1))),
                PmClockRelease = (\<lambda>nd (p, k). (p, k - 1)),
                PmPowerUpdateLatencyReq = (\<lambda>nd w. (XST_SUCCESS, w))\<rparr>"

text \<open>The same collaborators with a clock module that refuses every request.\<close>

definition ex_collab_noclk :: "(int \<times> int) collab" where
  "ex_collab_noclk = ex_collab\<lparr>PmClockRequest := (\<lambda>nd w. (XST_FAILURE, w))\<rparr>"

definition ex_env :: "(int \<times> int) env" where
  "ex_env = \<lparr>hw = (0, 0), calls = []\<rparr>"

text \<open>
  The example slave with a single requirement that is not in use (no capabilities are
  requested) but sets the latency bound 10.
\<close>

definition ex_slave_lat :: "(int \<times> int) PmSlave" where
  "ex_slave_lat =
     ex_slave\<lparr>reqs := [\<lparr>master = \<lparr>ipiMask = 1\<rparr>, info = 4, currReq = 0, latencyReq = 10\<rparr>]\<rparr>"

text \<open>
  The example slave in state 2, the example slave with a transition action that fails,
  and a run of three state changes: one to state 2 that the clock module refuses, a
  second one to state 2 with a clock module that grants the request, and one back to
  state 0.
\<close>

definition ex_slave_on :: "(int \<times> int) PmSlave" where
  "ex_slave_on = ex_slave\<lparr>node := (node ex_slave)\<lparr>currState := 2\<rparr>\<rparr>"

definition ex_slave_act :: "(int \<times> int) PmSlave" where
  "ex_slave_act =
     ex_slave\<lparr>slvFsm := ex_fsm\<lparr>enterState := Some (\<lambda>nd s w. (XST_FAILURE, w))\<rparr>\<rparr>"

definition ex_env_aborted :: "(int \<times> int) env" where
  "ex_env_aborted = snd (snd (PmSlaveChangeState ex_defs ex_collab_noclk ex_slave 2 ex_env))"

definition ex_retry ::
  "status \<times> (int \<times> int) PmSlave \<times> (int \<times> int) env" where
  "ex_retry = PmSlaveChangeState ex_defs ex_collab ex_slave 2 ex_env_aborted"

definition ex_back ::
  "status \<times> (int \<times> int) PmSlave \<times> (int \<times> int) env" where
  "ex_back = PmSlaveChangeState ex_defs ex_collab (fst (snd ex_retry)) 0 (snd (snd ex_retry))"

text \<open>
  A registry that knows one master, with the mask 1, and the example slave before any
  master is bound to it.
\<close>

definition ex_masters :: "(int \<times> int) masters" where
  "ex_masters = \<lparr>PmGetMasterByIpiMask = (\<lambda>w. if w = 1 then Some \<lparr>ipiMask = 1\<rparr> else None),
                 PmRequirementAdd = PmRequirementAdd_spec\<rparr>"

definition ex_slave_new :: "(int \<times> int) PmSlave" where
  "ex_slave_new = ex_slave\<lparr>reqs := []\<rparr>"

lemma ex_wf: "fsm_wf (slvFsm ex_slave)"
  by (simp add: ex_slave_def ex_fsm_def fsm_wf_def)

section \<open>Facts about counters\<close>

lemma unat_succ: "(i :: 'a::len word) < c \<Longrightarrow> unat (i + 1) = Suc (unat i)"
proof -
  assume h: "i < c"
  have lt: "unat i < unat c" using h by (simp add: word_less_nat_alt)
  moreover have "unat c < 2 ^ LENGTH('a)" by (rule unsigned_less)
  ultimately have "Suc (unat i) < 2 ^ LENGTH('a)" by linarith
  then show "unat (i + 1) = Suc (unat i)" by (simp add: unat_word_ariths)
qed

section \<open>Capability aggregation\<close>

lemma PmGetMaxCapabilities_loop_eq:
  "PmGetMaxCapabilities_loop d rs acc =
     acc OR foldr (OR) (map currReq
       (filter (\<lambda>r. PM_MASTER_USING_SLAVE_MASK d AND info r \<noteq> 0) rs)) 0"
proof (induction rs arbitrary: acc)
  case Nil
  show ?case by simp
next
  case (Cons r rs)
  show ?case by (simp add: Cons.IH or.assoc)
qed

lemma bit_foldr_OR:
  "bit (foldr (OR) (ws :: u32 list) 0) n \<longleftrightarrow> (\<exists>w \<in> set ws. bit w n)"
  by (induction ws) (simp_all add: bit_or_iff)

text \<open>
  Claim C7. \<open>PmGetMaxCapabilities\<close> returns exactly the bitwise OR of the granted
  capabilities \<open>currReq\<close> of the requirements whose currently-using flag is set: a bit is
  set in the result if and only if it is set in the \<open>currReq\<close> of some requirement that
  has the flag. Requirements without the flag contribute nothing, and when no requirement
  has the flag the result is zero.
\<close>

theorem C7_PmGetMaxCapabilities:
  "PmGetMaxCapabilities d slave =
     foldr (OR) (map currReq
       (filter (\<lambda>r. PM_MASTER_USING_SLAVE_MASK d AND info r \<noteq> 0) (reqs slave))) 0
   \<and> (\<forall>n. bit (PmGetMaxCapabilities d slave) n \<longleftrightarrow>
         (\<exists>r \<in> set (reqs slave).
            PM_MASTER_USING_SLAVE_MASK d AND info r \<noteq> 0 \<and> bit (currReq r) n))
   \<and> ((\<forall>r \<in> set (reqs slave). PM_MASTER_USING_SLAVE_MASK d AND info r = 0) \<longrightarrow>
         PmGetMaxCapabilities d slave = 0)"
proof -
  let ?using = "\<lambda>r. PM_MASTER_USING_SLAVE_MASK d AND info r \<noteq> 0"
  have eq: "PmGetMaxCapabilities d slave =
      foldr (OR) (map currReq (filter ?using (reqs slave))) 0"
    by (simp add: PmGetMaxCapabilities_def PmGetMaxCapabilities_loop_eq)
  have bits: "\<forall>n. bit (PmGetMaxCapabilities d slave) n \<longleftrightarrow>
         (\<exists>r \<in> set (reqs slave). ?using r \<and> bit (currReq r) n)"
    unfolding eq bit_foldr_OR by auto
  have none: "(\<forall>r \<in> set (reqs slave). PM_MASTER_USING_SLAVE_MASK d AND info r = 0) \<longrightarrow>
         PmGetMaxCapabilities d slave = 0"
  proof
    assume "\<forall>r \<in> set (reqs slave). PM_MASTER_USING_SLAVE_MASK d AND info r = 0"
    then have "filter ?using (reqs slave) = []" by (simp add: filter_empty_conv)
    then show "PmGetMaxCapabilities d slave = 0" by (simp add: eq)
  qed
  from eq bits none show ?thesis by blast
qed

text \<open>
  On the example slave two requirements are in use, with capabilities 16 and 8, and a
  third, with capability 32, is not: the aggregate is 24. With every usage flag cleared
  it is 0.
\<close>

theorem C7_PmGetMaxCapabilities_witness:
  "PmGetMaxCapabilities ex_defs ex_slave = 24
   \<and> PmGetMaxCapabilities ex_defs
        (ex_slave\<lparr>reqs := map (\<lambda>r. r\<lparr>info := 0\<rparr>) (reqs ex_slave)\<rparr>) = 0"
  using C7_PmGetMaxCapabilities [of ex_defs ex_slave]
    C7_PmGetMaxCapabilities [of ex_defs
      "ex_slave\<lparr>reqs := map (\<lambda>r. r\<lparr>info := 0\<rparr>) (reqs ex_slave)\<rparr>"]
  by (simp add: ex_defs_def ex_slave_def)

section \<open>Selecting a state by capabilities\<close>

lemma PmGetStateWithCaps_loop_spec:
  "(\<exists>k. unat i \<le> k \<and> k < unat (statesCnt (slvFsm slave)) \<and>
        (c AND states (slvFsm slave) ! k) = c \<and>
        (\<forall>j. unat i \<le> j \<and> j < k \<longrightarrow> (c AND states (slvFsm slave) ! j) \<noteq> c) \<and>
        PmGetStateWithCaps_loop slave c state i =
          (XST_SUCCESS, map_option (\<lambda>_. of_nat k) state))
   \<or> ((\<forall>j. unat i \<le> j \<and> j < unat (statesCnt (slvFsm slave)) \<longrightarrow>
            (c AND states (slvFsm slave) ! j) \<noteq> c) \<and>
        PmGetStateWithCaps_loop slave c state i = (XST_PM_CONFLICT, state))"
proof (induction slave c state i rule: PmGetStateWithCaps_loop.induct)
  case (1 slave caps state i)
  let ?cnt = "statesCnt (slvFsm slave)"
  let ?m = "\<lambda>j. (caps AND states (slvFsm slave) ! j) = caps"
  show ?case
  proof (cases "i < ?cnt")
    case False
    then have r: "PmGetStateWithCaps_loop slave caps state i = (XST_PM_CONFLICT, state)"
      by (subst PmGetStateWithCaps_loop.simps) simp
    from False have "\<not> unat i < unat ?cnt" by (simp add: word_less_nat_alt)
    with r show ?thesis by auto
  next
    case lt: True
    then have ltn: "unat i < unat ?cnt" by (simp add: word_less_nat_alt)
    show ?thesis
    proof (cases "?m (unat i)")
      case True
      have "PmGetStateWithCaps_loop slave caps state i =
          (XST_SUCCESS, map_option (\<lambda>_. i) state)"
        using lt True by (subst PmGetStateWithCaps_loop.simps) (cases state; simp)
      with ltn True show ?thesis by (intro disjI1 exI[of _ "unat i"]) auto
    next
      case False
      have step: "PmGetStateWithCaps_loop slave caps state i =
          PmGetStateWithCaps_loop slave caps state (i + 1)"
        using lt False by (subst PmGetStateWithCaps_loop.simps) simp
      have su: "unat (i + 1) = Suc (unat i)" by (rule unat_succ[OF lt])
      have le: "\<And>j. (unat i \<le> j) = (j = unat i \<or> Suc (unat i) \<le> j)" by auto
      from "1.IH"[OF lt False] show ?thesis
        unfolding su
      proof (elim disjE exE conjE)
        fix k
        assume a: "Suc (unat i) \<le> k" "k < unat ?cnt" "?m k"
          "\<forall>j. Suc (unat i) \<le> j \<and> j < k \<longrightarrow> \<not> ?m j"
          "PmGetStateWithCaps_loop slave caps state (i + 1) =
             (XST_SUCCESS, map_option (\<lambda>_. of_nat k) state)"
        have "\<forall>j. unat i \<le> j \<and> j < k \<longrightarrow> \<not> ?m j"
          using a(4) False le by metis
        with a show ?thesis by (intro disjI1 exI[of _ k]) (simp add: step)
      next
        assume a: "\<forall>j. Suc (unat i) \<le> j \<and> j < unat ?cnt \<longrightarrow> \<not> ?m j"
          "PmGetStateWithCaps_loop slave caps state (i + 1) = (XST_PM_CONFLICT, state)"
        have "\<forall>j. unat i \<le> j \<and> j < unat ?cnt \<longrightarrow> \<not> ?m j"
          using a(1) False le by metis
        with a show ?thesis by (intro disjI2) (simp add: step)
      qed
    qed
  qed
qed

text \<open>
  Claim C1. For every slave with a well-formed state table and every capability mask
  \<open>c\<close>, \<open>PmGetStateWithCaps\<close> either succeeds with the lowest index \<open>i\<close> whose state mask
  is a superset of \<open>c\<close> (the mask ANDed with \<open>c\<close> is \<open>c\<close>, and no lower index has that
  property), stored through a non-null result pointer, or returns the conflict status,
  leaving the result untouched, when no state of the table is a superset of \<open>c\<close>. The
  status is the conflict status if and only if no state of the table is a superset.
\<close>

theorem C1_PmGetStateWithCaps:
  assumes "fsm_wf (slvFsm slave)"
  shows "((\<exists>i. unat i < length (states (slvFsm slave)) \<and>
              (c AND states (slvFsm slave) ! unat i) = c \<and>
              (\<forall>j < unat i. (c AND states (slvFsm slave) ! j) \<noteq> c) \<and>
              PmGetStateWithCaps slave c state = (XST_SUCCESS, map_option (\<lambda>_. i) state))
          \<or> ((\<forall>s \<in> set (states (slvFsm slave)). (c AND s) \<noteq> c) \<and>
              PmGetStateWithCaps slave c state = (XST_PM_CONFLICT, state)))
       \<and> (fst (PmGetStateWithCaps slave c state) = XST_PM_CONFLICT \<longleftrightarrow>
            (\<forall>s \<in> set (states (slvFsm slave)). (c AND s) \<noteq> c))"
proof -
  let ?sts = "states (slvFsm slave)"
  have len: "length ?sts = unat (statesCnt (slvFsm slave))"
    using assms by (simp add: fsm_wf_def)
  have none_iff: "(\<forall>j. j < length ?sts \<longrightarrow> (c AND ?sts ! j) \<noteq> c) \<longleftrightarrow>
      (\<forall>s \<in> set ?sts. (c AND s) \<noteq> c)"
    by (metis in_set_conv_nth)
  from PmGetStateWithCaps_loop_spec[of 0 slave c state]
  have main: "(\<exists>i. unat i < length ?sts \<and> (c AND ?sts ! unat i) = c \<and>
              (\<forall>j < unat i. (c AND ?sts ! j) \<noteq> c) \<and>
              PmGetStateWithCaps slave c state = (XST_SUCCESS, map_option (\<lambda>_. i) state))
          \<or> ((\<forall>s \<in> set ?sts. (c AND s) \<noteq> c) \<and>
              PmGetStateWithCaps slave c state = (XST_PM_CONFLICT, state))"
  proof (elim disjE exE conjE)
    fix k
    assume a: "k < unat (statesCnt (slvFsm slave))" "(c AND ?sts ! k) = c"
      "\<forall>j. unat (0::u8) \<le> j \<and> j < k \<longrightarrow> (c AND ?sts ! j) \<noteq> c"
      "PmGetStateWithCaps_loop slave c state 0 =
         (XST_SUCCESS, map_option (\<lambda>_. of_nat k) state)"
    have "unat (statesCnt (slvFsm slave)) < 2 ^ LENGTH(8)" by (rule unsigned_less)
    with a(1) have "k < 2 ^ LENGTH(8)" by linarith
    then have uk: "unat (of_nat k :: u8) = k" by (simp add: unat_of_nat)
    show ?thesis
      using a uk len
      by (intro disjI1 exI[of _ "of_nat k :: u8"]) (simp add: PmGetStateWithCaps_def)
  next
    assume a: "\<forall>j. unat (0::u8) \<le> j \<and> j < unat (statesCnt (slvFsm slave)) \<longrightarrow>
        (c AND ?sts ! j) \<noteq> c"
      "PmGetStateWithCaps_loop slave c state 0 = (XST_PM_CONFLICT, state)"
    have "\<forall>s \<in> set ?sts. (c AND s) \<noteq> c" using a(1) len none_iff by simp
    with a(2) show ?thesis by (intro disjI2) (simp add: PmGetStateWithCaps_def)
  qed
  have iff: "fst (PmGetStateWithCaps slave c state) = XST_PM_CONFLICT \<longleftrightarrow>
            (\<forall>s \<in> set ?sts. (c AND s) \<noteq> c)"
    using main by (auto dest: nth_mem)
  from main iff show ?thesis by blast
qed

text \<open>
  On the example table (masks 0, 8, 24) the mask 32 is offered by no state, and the
  lowest state that offers the mask 8 is state 1.
\<close>

theorem C1_PmGetStateWithCaps_witness:
  "fsm_wf (slvFsm ex_slave)
   \<and> fst (PmGetStateWithCaps ex_slave 32 (Some 0)) = XST_PM_CONFLICT
   \<and> PmGetStateWithCaps ex_slave 8 (Some 0) = (XST_SUCCESS, Some 1)"
proof -
  have ev: "PmGetStateWithCaps ex_slave 8 (Some 0) = (XST_SUCCESS, Some 1)"
    by (simp add: PmGetStateWithCaps_def PmGetStateWithCaps_loop.simps ex_slave_def ex_fsm_def)
  show ?thesis
    using C1_PmGetStateWithCaps [OF ex_wf, of 32 "Some 0"] ex_wf ev
    by (simp add: ex_slave_def ex_fsm_def)
qed

section \<open>Latency from a state and the latency constraint\<close>

lemma unat_ucast_u8_u32: "unat (ucast (c :: u8) :: u32) = unat c"
  by (simp add: unsigned_ucast_eq take_bit_nat_eq_self  unsigned_less order_less_trans[OF unsigned_less])

lemma less_ucast_u8: "((i :: u32) < ucast (c :: u8)) = (unat i < unat c)"
  by (simp add: word_less_nat_alt unat_ucast_u8_u32)

lemma PmGetLatencyFromState_loop_find:
  assumes "length (trans (slvFsm slave)) = unat (transCnt (slvFsm slave))"
  shows "PmGetLatencyFromState_loop slave st hi i =
     (case find (\<lambda>t. st = fromState t \<and> hi = toState t) (drop (unat i) (trans (slvFsm slave))) of
        None \<Rightarrow> 0 | Some t \<Rightarrow> latency t)"
  using assms
proof (induction slave st hi i rule: PmGetLatencyFromState_loop.induct)
  case (1 slave state highestState i)
  let ?tr = "trans (slvFsm slave)"
  show ?case
  proof (cases "i < ucast (transCnt (slvFsm slave))")
    case False
    then have "length ?tr \<le> unat i" using "1.prems" by (simp add: less_ucast_u8)
    then have "drop (unat i) ?tr = []" by simp
    with False show ?thesis by (subst PmGetLatencyFromState_loop.simps) simp
  next
    case lt: True
    then have "unat i < length ?tr" using "1.prems" by (simp add: less_ucast_u8)
    then have dr: "drop (unat i) ?tr = ?tr ! unat i # drop (Suc (unat i)) ?tr"
      by (simp add: Cons_nth_drop_Suc)
    have su: "unat (i + 1) = Suc (unat i)" by (rule unat_succ[OF lt])
    show ?thesis
    proof (cases "state = fromState (?tr ! unat i) \<and> highestState = toState (?tr ! unat i)")
      case True
      with lt dr show ?thesis by (subst PmGetLatencyFromState_loop.simps) simp
    next
      case False
      from "1.IH"[OF lt False "1.prems"] lt False dr su show ?thesis
        by (subst PmGetLatencyFromState_loop.simps) auto
    qed
  qed
qed

lemma PmGetLatencyFromState_find:
  assumes "fsm_wf (slvFsm slave)"
  shows "PmGetLatencyFromState slave st =
     (case find (\<lambda>t. st = fromState t \<and> statesCnt (slvFsm slave) - 1 = toState t)
             (trans (slvFsm slave)) of
        None \<Rightarrow> 0 | Some t \<Rightarrow> latency t)"
  using assms PmGetLatencyFromState_loop_find[of slave st "statesCnt (slvFsm slave) - 1" 0]
  by (simp add: PmGetLatencyFromState_def fsm_wf_def)


lemma PmConstrainStateByLatency_loop_spec:
  "(\<exists>k. unat i \<le> k \<and> k < unat (statesCnt (slvFsm slave)) \<and>
        ((c AND states (slvFsm slave) ! k) = c \<and> PmGetLatencyFromState slave (of_nat k) \<le> b) \<and>
        (\<forall>j. unat i \<le> j \<and> j < k \<longrightarrow>
             \<not> ((c AND states (slvFsm slave) ! j) = c \<and> PmGetLatencyFromState slave (of_nat j) \<le> b)) \<and>
        PmConstrainStateByLatency_loop slave s c b i = (XST_SUCCESS, of_nat k))
   \<or> ((\<forall>j. unat i \<le> j \<and> j < unat (statesCnt (slvFsm slave)) \<longrightarrow>
             \<not> ((c AND states (slvFsm slave) ! j) = c \<and> PmGetLatencyFromState slave (of_nat j) \<le> b)) \<and>
        PmConstrainStateByLatency_loop slave s c b i = (XST_PM_CONFLICT, s))"
proof (induction slave s c b i rule: PmConstrainStateByLatency_loop.induct)
  case (1 slave state capsToSet minLatency i)
  let ?cnt = "statesCnt (slvFsm slave)"
  let ?ok = "\<lambda>j. (capsToSet AND states (slvFsm slave) ! j) = capsToSet \<and>
                 PmGetLatencyFromState slave (of_nat j) \<le> minLatency"
  let ?L = "PmConstrainStateByLatency_loop slave state capsToSet minLatency"
  show ?case
  proof (cases "i < ucast ?cnt")
    case False
    then have r: "?L i = (XST_PM_CONFLICT, state)"
      by (subst PmConstrainStateByLatency_loop.simps) simp
    from False have "\<not> unat i < unat ?cnt" by (simp add: less_ucast_u8)
    with r show ?thesis by auto
  next
    case lt: True
    then have ltn: "unat i < unat ?cnt" by (simp add: less_ucast_u8)
    have uc: "(ucast i :: u8) = of_nat (unat i)" by simp
    show ?thesis
    proof (cases "?ok (unat i)")
      case True
      have "?L i = (XST_SUCCESS, of_nat (unat i))"
        using lt True
        by (subst PmConstrainStateByLatency_loop.simps) (simp add: not_less[symmetric])
      with ltn True show ?thesis by (intro disjI1 exI[of _ "unat i"]) auto
    next
      case False
      have step: "?L i = ?L (i + 1)"
        using lt False
        by (subst PmConstrainStateByLatency_loop.simps) (auto simp: not_le)
      have su: "unat (i + 1) = Suc (unat i)" by (rule unat_succ[OF lt])
      have le: "\<And>j. (unat i \<le> j) = (j = unat i \<or> Suc (unat i) \<le> j)" by auto
      have IH: "(\<exists>k. Suc (unat i) \<le> k \<and> k < unat ?cnt \<and> ?ok k \<and>
            (\<forall>j. Suc (unat i) \<le> j \<and> j < k \<longrightarrow> \<not> ?ok j) \<and> ?L (i + 1) = (XST_SUCCESS, of_nat k))
          \<or> ((\<forall>j. Suc (unat i) \<le> j \<and> j < unat ?cnt \<longrightarrow> \<not> ?ok j) \<and>
              ?L (i + 1) = (XST_PM_CONFLICT, state))"
      proof (cases "(capsToSet AND states (slvFsm slave) ! unat i) \<noteq> capsToSet")
        case True
        from "1.IH"(1)[OF lt True] show ?thesis unfolding su .
      next
        case f: False
        with False have "minLatency < PmGetLatencyFromState slave (ucast i)"
          by (simp add: not_le)
        from "1.IH"(2)[OF lt f this] show ?thesis unfolding su .
      qed
      then show ?thesis
      proof (elim disjE exE conjE)
        fix k
        assume a: "Suc (unat i) \<le> k" "k < unat ?cnt" 
          "(capsToSet AND states (slvFsm slave) ! k) = capsToSet"
          "PmGetLatencyFromState slave (of_nat k) \<le> minLatency"
          "\<forall>j. Suc (unat i) \<le> j \<and> j < k \<longrightarrow> \<not> ?ok j"
          "?L (i + 1) = (XST_SUCCESS, of_nat k)"
        have "\<forall>j. unat i \<le> j \<and> j < k \<longrightarrow> \<not> ?ok j"
          using a(5) False le by metis
        with a show ?thesis by (intro disjI1 exI[of _ k]) (simp add: step)
      next
        assume a: "\<forall>j. Suc (unat i) \<le> j \<and> j < unat ?cnt \<longrightarrow> \<not> ?ok j"
          "?L (i + 1) = (XST_PM_CONFLICT, state)"
        have "\<forall>j. unat i \<le> j \<and> j < unat ?cnt \<longrightarrow> \<not> ?ok j"
          using a(1) False le by metis
        with a show ?thesis by (intro disjI2) (simp add: step)
      qed
    qed
  qed
qed


text \<open>
  Claim C3. For every slave with well-formed tables, start state \<open>s\<close>, mask \<open>caps\<close> and
  bound \<open>b\<close>, \<open>PmConstrainStateByLatency\<close> either succeeds with the first state \<open>i\<close> at or
  above \<open>s\<close> whose mask is a superset of \<open>caps\<close> and whose latency from state is at most
  \<open>b\<close> (no state from \<open>s\<close> up to \<open>i\<close> has both properties), or returns the conflict
  status with the state unchanged; it returns the conflict status if and only if no state
  from \<open>s\<close> up to the highest one has both properties. The latency from a state is the
  latency of the first transition of the table that leads from that state to the highest
  state \<open>statesCnt - 1\<close>, and zero when the table has no such transition.
\<close>

theorem C3_PmConstrainStateByLatency:
  assumes "fsm_wf (slvFsm slave)"
  shows "((\<exists>i. s \<le> i \<and> unat i < length (states (slvFsm slave)) \<and>
              (caps AND states (slvFsm slave) ! unat i) = caps \<and>
              PmGetLatencyFromState slave i \<le> b \<and>
              (\<forall>j. s \<le> j \<and> j < i \<longrightarrow>
                 \<not> ((caps AND states (slvFsm slave) ! unat j) = caps \<and>
                    PmGetLatencyFromState slave j \<le> b)) \<and>
              PmConstrainStateByLatency slave s caps b = (XST_SUCCESS, i))
          \<or> ((\<forall>j. s \<le> j \<and> unat j < length (states (slvFsm slave)) \<longrightarrow>
                 \<not> ((caps AND states (slvFsm slave) ! unat j) = caps \<and>
                    PmGetLatencyFromState slave j \<le> b)) \<and>
              PmConstrainStateByLatency slave s caps b = (XST_PM_CONFLICT, s)))
       \<and> (fst (PmConstrainStateByLatency slave s caps b) = XST_PM_CONFLICT \<longleftrightarrow>
            (\<forall>j. s \<le> j \<and> unat j < length (states (slvFsm slave)) \<longrightarrow>
                 \<not> ((caps AND states (slvFsm slave) ! unat j) = caps \<and>
                    PmGetLatencyFromState slave j \<le> b)))
       \<and> (\<forall>st. PmGetLatencyFromState slave st =
            (case find (\<lambda>t. st = fromState t \<and> statesCnt (slvFsm slave) - 1 = toState t)
                    (trans (slvFsm slave)) of
               None \<Rightarrow> 0 | Some t \<Rightarrow> latency t))"
proof -
  let ?sts = "states (slvFsm slave)"
  let ?cnt = "statesCnt (slvFsm slave)"
  let ?ok = "\<lambda>j :: u8. (caps AND ?sts ! unat j) = caps \<and> PmGetLatencyFromState slave j \<le> b"
  let ?R = "PmConstrainStateByLatency slave s caps b"
  have len: "length ?sts = unat ?cnt" using assms by (simp add: fsm_wf_def)
  have us: "unat (ucast s :: u32) = unat s" by (rule unat_ucast_u8_u32)
  have main: "(\<exists>i. s \<le> i \<and> unat i < length ?sts \<and> ?ok i \<and> (\<forall>j. s \<le> j \<and> j < i \<longrightarrow> \<not> ?ok j) \<and>
                ?R = (XST_SUCCESS, i))
            \<or> ((\<forall>j. s \<le> j \<and> unat j < length ?sts \<longrightarrow> \<not> ?ok j) \<and> ?R = (XST_PM_CONFLICT, s))"
    using PmConstrainStateByLatency_loop_spec[of "ucast s" slave caps b s]
    unfolding us
  proof (elim disjE exE conjE)
    fix k
    assume a: "unat s \<le> k" "k < unat ?cnt" "(caps AND ?sts ! k) = caps"
      "PmGetLatencyFromState slave (of_nat k) \<le> b"
      "\<forall>j. unat s \<le> j \<and> j < k \<longrightarrow>
         \<not> ((caps AND ?sts ! j) = caps \<and> PmGetLatencyFromState slave (of_nat j) \<le> b)"
      "PmConstrainStateByLatency_loop slave s caps b (ucast s) = (XST_SUCCESS, of_nat k)"
    have "unat ?cnt < 2 ^ LENGTH(8)" by (rule unsigned_less)
    with a(2) have "k < 2 ^ LENGTH(8)" by linarith
    then have uk: "unat (of_nat k :: u8) = k" by (simp add: unat_of_nat)
    have below: "\<forall>j. s \<le> j \<and> j < of_nat k \<longrightarrow> \<not> ?ok j"
    proof (intro allI impI)
      fix j :: u8
      assume "s \<le> j \<and> j < of_nat k"
      then have "unat s \<le> unat j \<and> unat j < k"
        by (simp add: word_le_nat_alt word_less_nat_alt uk)
      with a(5) have "\<not> ((caps AND ?sts ! unat j) = caps \<and>
          PmGetLatencyFromState slave (of_nat (unat j)) \<le> b)" by blast
      then show "\<not> ?ok j" by simp
    qed
    have "s \<le> of_nat k" using a(1) by (simp add: word_le_nat_alt uk)
    with a uk len below show ?thesis
      by (intro disjI1 exI[of _ "of_nat k :: u8"]) (simp add: PmConstrainStateByLatency_def)
  next
    assume a: "\<forall>j. unat s \<le> j \<and> j < unat ?cnt \<longrightarrow>
         \<not> ((caps AND ?sts ! j) = caps \<and> PmGetLatencyFromState slave (of_nat j) \<le> b)"
      "PmConstrainStateByLatency_loop slave s caps b (ucast s) = (XST_PM_CONFLICT, s)"
    have "\<forall>j. s \<le> j \<and> unat j < length ?sts \<longrightarrow> \<not> ?ok j"
    proof (intro allI impI)
      fix j :: u8
      assume "s \<le> j \<and> unat j < length ?sts"
      then have "unat s \<le> unat j \<and> unat j < unat ?cnt"
        by (simp add: word_le_nat_alt len)
      with a(1) have "\<not> ((caps AND ?sts ! unat j) = caps \<and>
          PmGetLatencyFromState slave (of_nat (unat j)) \<le> b)" by blast
      then show "\<not> ?ok j" by simp
    qed
    with a(2) show ?thesis by (intro disjI2) (simp add: PmConstrainStateByLatency_def)
  qed
  have iff: "fst ?R = XST_PM_CONFLICT \<longleftrightarrow> (\<forall>j. s \<le> j \<and> unat j < length ?sts \<longrightarrow> \<not> ?ok j)"
    using main by auto
  have lat: "\<forall>st. PmGetLatencyFromState slave st =
            (case find (\<lambda>t. st = fromState t \<and> ?cnt - 1 = toState t) (trans (slvFsm slave)) of
               None \<Rightarrow> 0 | Some t \<Rightarrow> latency t)"
    using PmGetLatencyFromState_find[OF assms] by blast
  from main iff lat show ?thesis by blast
qed

text \<open>
  On the example slave state 1 is 50 away from the highest state and state 2 is 0 away.
  From state 0 with the mask 8 and the bound 10 the search passes state 0 (no power) and
  state 1 (too slow) and ends in state 2; for the mask 32 it ends in a conflict.
\<close>

theorem C3_PmConstrainStateByLatency_witness:
  "fsm_wf (slvFsm ex_slave)
   \<and> PmGetLatencyFromState ex_slave 1 = 50
   \<and> PmGetLatencyFromState ex_slave 2 = 0
   \<and> PmConstrainStateByLatency ex_slave 0 8 10 = (XST_SUCCESS, 2)
   \<and> PmConstrainStateByLatency ex_slave 1 32 10 = (XST_PM_CONFLICT, 1)"
proof -
  note inst = C3_PmConstrainStateByLatency [OF ex_wf, of 0 8 10]
  from inst have "PmGetLatencyFromState ex_slave 1 =
      (case find (\<lambda>t. 1 = fromState t \<and> statesCnt (slvFsm ex_slave) - 1 = toState t)
              (trans (slvFsm ex_slave)) of
         None \<Rightarrow> 0 | Some t \<Rightarrow> latency t)"
    by blast
  then have l1: "PmGetLatencyFromState ex_slave 1 = 50"
    by (simp add: ex_slave_def ex_fsm_def)
  from inst have "PmGetLatencyFromState ex_slave 2 =
      (case find (\<lambda>t. 2 = fromState t \<and> statesCnt (slvFsm ex_slave) - 1 = toState t)
              (trans (slvFsm ex_slave)) of
         None \<Rightarrow> 0 | Some t \<Rightarrow> latency t)"
    by blast
  then have l2: "PmGetLatencyFromState ex_slave 2 = 0"
    by (simp add: ex_slave_def ex_fsm_def)
  have ev1: "PmConstrainStateByLatency ex_slave 0 8 10 = (XST_SUCCESS, 2)"
    by code_simp
  have ev2: "PmConstrainStateByLatency ex_slave 1 32 10 = (XST_PM_CONFLICT, 1)"
    by code_simp
  from ex_wf l1 l2 ev1 ev2 show ?thesis by blast
qed

section \<open>The reconciliation pass\<close>

lemma PmConstrainStateByLatency_success:
  "PmConstrainStateByLatency slave s caps b = (XST_SUCCESS, s') \<Longrightarrow>
     PmGetLatencyFromState slave s' \<le> b"
  using PmConstrainStateByLatency_loop_spec[of "ucast s" slave caps b s]
  by (auto simp: PmConstrainStateByLatency_def)

lemma PmSlaveChangeState_latencyMarg:
  "latencyMarg (node (fst (snd (PmSlaveChangeState d c slave state e)))) = latencyMarg (node slave)"
  by (simp add: PmSlaveChangeState_def Let_def PmNodeUpdateCurrState_def split: prod.splits)

lemma PmUpdateSlave_resolve_Inr:
  assumes "PmUpdateSlave_resolve d slave = Inr (state, minLat, wkupLat)"
  shows "minLat = PmGetMinRequestedLatency d slave \<and>
         wkupLat = PmGetLatencyFromState slave state \<and> wkupLat \<le> minLat"
  using assms
  by (auto simp: PmUpdateSlave_resolve_def Let_def not_less
           split: prod.splits if_splits dest: PmConstrainStateByLatency_success)

text \<open>
  Claim C6. \<open>PmUpdateSlave\<close> either leaves before the assignment of \<open>latencyMarg\<close> (a
  failed search; the slave is then unchanged) or reaches it with a state whose latency
  from state \<open>wkupLat\<close> does not exceed the aggregated bound \<open>minLat\<close>. The recorded
  margin is then \<open>minLat - wkupLat\<close> and the subtraction does not wrap: read as unsigned
  integers, the margin is the difference of the bound and the cost. This holds for every
  bound, the sentinel \<open>MAX_LATENCY\<close> included.
\<close>

theorem C6_PmUpdateSlave_latencyMarg:
  "case PmUpdateSlave_resolve d slave of
     Inl status \<Rightarrow> PmUpdateSlave d c slave e = (status, slave, e)
   | Inr (state, minLat, wkupLat) \<Rightarrow>
       minLat = PmGetMinRequestedLatency d slave \<and>
       wkupLat = PmGetLatencyFromState slave state \<and>
       wkupLat \<le> minLat \<and>
       latencyMarg (node (fst (snd (PmUpdateSlave d c slave e)))) = minLat - wkupLat \<and>
       uint (minLat - wkupLat) = uint minLat - uint wkupLat"
proof (cases "PmUpdateSlave_resolve d slave")
  case (Inl status)
  then show ?thesis by (simp add: PmUpdateSlave_def)
next
  case (Inr r)
  obtain state minLat wkupLat where r: "r = (state, minLat, wkupLat)" by (cases r) auto
  note res = Inr[unfolded r]
  from PmUpdateSlave_resolve_Inr[OF res]
  have a: "minLat = PmGetMinRequestedLatency d slave"
    "wkupLat = PmGetLatencyFromState slave state" "wkupLat \<le> minLat" by auto
  have m: "latencyMarg (node (fst (snd (PmUpdateSlave d c slave e)))) = minLat - wkupLat"
    by (simp add: PmUpdateSlave_def res Let_def PmSlaveChangeState_latencyMarg split: prod.splits)
  have u: "uint (minLat - wkupLat) = uint minLat - uint wkupLat"
    using a(3) by (simp add: uint_sub_if' word_le_def)
  from a m u show ?thesis by (simp add: res)
qed


text \<open>
  On the example slave no requirement sets a latency bound: the bound is the sentinel,
  the chosen state is state 2 with cost 0, and the margin is the sentinel itself.
\<close>

theorem C6_PmUpdateSlave_latencyMarg_witness:
  "PmUpdateSlave_resolve ex_defs ex_slave = Inr (2, MAX_LATENCY, 0)
   \<and> latencyMarg (node (fst (snd (PmUpdateSlave ex_defs ex_collab ex_slave ex_env)))) = MAX_LATENCY
   \<and> uint (MAX_LATENCY - 0) = uint MAX_LATENCY - uint (0 :: u32)"
proof -
  have r: "PmUpdateSlave_resolve ex_defs ex_slave = Inr (2, MAX_LATENCY, 0)"
    by code_simp
  from C6_PmUpdateSlave_latencyMarg [where d = ex_defs and slave = ex_slave and c = ex_collab and e = ex_env]
  show ?thesis by (simp add: r)
qed

text \<open>
  Claim C2 says that with zero aggregated capabilities the pass resolves to state 0
  whatever the latency bound. \<open>PmUpdateSlave\<close> does not do that: the latency check follows
  the choice of state 0 unconditionally. With no capability requested and a latency bound
  of 10, state 0 of the example slave costs 100, the constraint search runs from state 0
  with the empty mask, and the pass resolves to state 2 and moves the slave there.
\<close>

theorem C2_PmUpdateSlave_zero_caps_escalates:
  "PmGetMaxCapabilities ex_defs ex_slave_lat = 0
   \<and> PmGetMinRequestedLatency ex_defs ex_slave_lat = 10
   \<and> PmGetLatencyFromState ex_slave_lat 0 = 100
   \<and> PmUpdateSlave_resolve ex_defs ex_slave_lat = Inr (2, 10, 0)
   \<and> fst (PmUpdateSlave ex_defs ex_collab ex_slave_lat ex_env) = XST_SUCCESS
   \<and> currState (node (fst (snd (PmUpdateSlave ex_defs ex_collab ex_slave_lat ex_env)))) = 2"
  by code_simp

section \<open>Failed state changes\<close>

lemma call_status_calls:
  "call_status ev f e = (st, e') \<Longrightarrow> calls e' = calls e @ [ev st]"
  by (auto simp: call_status_def split: prod.splits)

lemma PmSlavePrepareState_calls:
  assumes "PmSlavePrepareState d c slave state e = (st, e1)"
  shows "\<exists>evs. calls e1 = calls e @ evs \<and>
           (evs = [] \<and> st = XST_SUCCESS \<or> evs = [PowerRequestParent st] \<and> st \<noteq> XST_SUCCESS \<or>
            evs = [ClockRequest st] \<or> evs = [PowerRequestParent XST_SUCCESS, ClockRequest st]
            \<or> evs = [PowerRequestParent XST_SUCCESS] \<and> st = XST_SUCCESS)"
  using assms
  by (auto simp: PmSlavePrepareState_def Let_def split: prod.splits if_splits
           dest!: call_status_calls)

lemma PmSlaveChangeState_loop_find:
  assumes "length (trans (slvFsm slave)) = unat (transCnt (slvFsm slave))"
  shows "PmSlaveChangeState_loop slave state status e t =
     (case find (\<lambda>tr. fromState tr = currState (node slave) \<and> toState tr = state)
             (drop (unat t) (trans (slvFsm slave))) of
        None \<Rightarrow> (status, e)
      | Some tr \<Rightarrow>
          (case enterState (slvFsm slave) of
             Some action \<Rightarrow> call_status (EnterState state) (action (node slave) state) e
           | None \<Rightarrow> (XST_SUCCESS, e)))"
  using assms
proof (induction slave state status e t rule: PmSlaveChangeState_loop.induct)
  case (1 slave state status e t)
  let ?tr = "trans (slvFsm slave)"
  show ?case
  proof (cases "t < ucast (transCnt (slvFsm slave))")
    case False
    then have "length ?tr \<le> unat t" using "1.prems" by (simp add: less_ucast_u8)
    then have "drop (unat t) ?tr = []" by simp
    with False show ?thesis by (subst PmSlaveChangeState_loop.simps) simp
  next
    case lt: True
    then have "unat t < length ?tr" using "1.prems" by (simp add: less_ucast_u8)
    then have dr: "drop (unat t) ?tr = ?tr ! unat t # drop (Suc (unat t)) ?tr"
      by (simp add: Cons_nth_drop_Suc)
    have su: "unat (t + 1) = Suc (unat t)" by (rule unat_succ[OF lt])
    show ?thesis
    proof (cases "fromState (?tr ! unat t) \<noteq> currState (node slave) \<or> toState (?tr ! unat t) \<noteq> state")
      case True
      from "1.IH"[OF lt True "1.prems"] lt True dr su show ?thesis
        by (subst PmSlaveChangeState_loop.simps) auto
    next
      case False
      with lt dr show ?thesis by (subst PmSlaveChangeState_loop.simps) simp
    qed
  qed
qed

lemma PmSlaveChangeState_apply_find:
  assumes "fsm_wf (slvFsm slave)"
  shows "PmSlaveChangeState_apply slave state e =
     (case find (\<lambda>tr. fromState tr = currState (node slave) \<and> toState tr = state)
             (trans (slvFsm slave)) of
        None \<Rightarrow> (if 0 = transCnt (slvFsm slave) then XST_SUCCESS else XST_FAILURE, e)
      | Some tr \<Rightarrow>
          (case enterState (slvFsm slave) of
             Some action \<Rightarrow> call_status (EnterState state) (action (node slave) state) e
           | None \<Rightarrow> (XST_SUCCESS, e)))"
  using assms PmSlaveChangeState_loop_find[of slave state _ e 0]
  by (simp add: PmSlaveChangeState_apply_def fsm_wf_def)

lemma PmSlaveChangeState_loop_calls:
  "PmSlaveChangeState_loop slave state status e t = (st, e2) \<Longrightarrow>
     e2 = e \<or> calls e2 = calls e @ [EnterState state st]"
proof (induction slave state status e t rule: PmSlaveChangeState_loop.induct)
  case (1 slave state status e t)
  from "1.prems" show ?case
    by (subst (asm) PmSlaveChangeState_loop.simps)
       (auto split: if_splits option.splits dest: call_status_calls "1.IH")
qed

lemma PmSlaveChangeState_apply_calls:
  "PmSlaveChangeState_apply slave state e = (st, e2) \<Longrightarrow>
     e2 = e \<or> calls e2 = calls e @ [EnterState state st]"
  unfolding PmSlaveChangeState_apply_def by (rule PmSlaveChangeState_loop_calls)

lemma PmSlaveChangeState_prepare_fails:
  "PmSlavePrepareState d c slave state e = (st, e1) \<Longrightarrow> st \<noteq> XST_SUCCESS \<Longrightarrow>
     PmSlaveChangeState d c slave state e = (st, slave, e1)"
  by (auto simp: PmSlaveChangeState_def Let_def)

lemma PmSlaveChangeState_apply_fails:
  "PmSlavePrepareState d c slave state e = (XST_SUCCESS, e1) \<Longrightarrow>
   PmSlaveChangeState_apply slave state e1 = (st, e2) \<Longrightarrow> st \<noteq> XST_SUCCESS \<Longrightarrow>
     PmSlaveChangeState d c slave state e = (st, slave, e2)"
  by (auto simp: PmSlaveChangeState_def Let_def)


text \<open>
  Claim C4. For a slave with well-formed tables: if the preparation of a state change
  fails, \<open>PmSlaveChangeState\<close> returns that status with the slave as it was (current
  state and requirements included) and the environment as the preparation left it. If the
  preparation succeeds and the transition step fails, the slave is again unchanged and
  the only call made after the preparation is the transition action, if any: no clock or
  power release. The transition step fails either because no entry of the table leads
  from the current state to the target, or because the action of the FSM returned the
  failure.
\<close>

theorem C4_PmSlaveChangeState_failure:
  assumes "fsm_wf (slvFsm slave)"
  shows "(\<forall>st e1. PmSlavePrepareState d c slave state e = (st, e1) \<and> st \<noteq> XST_SUCCESS \<longrightarrow>
            PmSlaveChangeState d c slave state e = (st, slave, e1))
       \<and> (\<forall>e1 st e2. PmSlavePrepareState d c slave state e = (XST_SUCCESS, e1) \<and>
             PmSlaveChangeState_apply slave state e1 = (st, e2) \<and> st \<noteq> XST_SUCCESS \<longrightarrow>
            PmSlaveChangeState d c slave state e = (st, slave, e2) \<and>
            (calls e2 = calls e1 \<or> calls e2 = calls e1 @ [EnterState state st]) \<and>
            (find (\<lambda>tr. fromState tr = currState (node slave) \<and> toState tr = state)
                  (trans (slvFsm slave)) = None \<and> e2 = e1
             \<or> (\<exists>action. enterState (slvFsm slave) = Some action \<and>
                   call_status (EnterState state) (action (node slave) state) e1 = (st, e2))))"
proof (intro conjI allI impI)
  fix st e1
  assume "PmSlavePrepareState d c slave state e = (st, e1) \<and> st \<noteq> XST_SUCCESS"
  then show "PmSlaveChangeState d c slave state e = (st, slave, e1)"
    by (simp add: PmSlaveChangeState_prepare_fails)
next
  fix e1 st e2
  assume a: "PmSlavePrepareState d c slave state e = (XST_SUCCESS, e1) \<and>
             PmSlaveChangeState_apply slave state e1 = (st, e2) \<and> st \<noteq> XST_SUCCESS"
  then show "PmSlaveChangeState d c slave state e = (st, slave, e2)"
    by (simp add: PmSlaveChangeState_apply_fails)
  from a show "calls e2 = calls e1 \<or> calls e2 = calls e1 @ [EnterState state st]"
    using PmSlaveChangeState_apply_calls[of slave state e1 st e2] by auto
  from a PmSlaveChangeState_apply_find[OF assms, of state e1]
  show "find (\<lambda>tr. fromState tr = currState (node slave) \<and> toState tr = state)
                  (trans (slvFsm slave)) = None \<and> e2 = e1
             \<or> (\<exists>action. enterState (slvFsm slave) = Some action \<and>
                   call_status (EnterState state) (action (node slave) state) e1 = (st, e2))"
    by (auto split: option.splits if_splits)
qed

lemma ex_prepare_noclk:
  "PmSlavePrepareState ex_defs ex_collab_noclk ex_slave 2 ex_env =
     (XST_FAILURE, \<lparr>hw = (1, 0), calls = [PowerRequestParent XST_SUCCESS, ClockRequest XST_FAILURE]\<rparr>)"
  by (simp add: PmSlavePrepareState_def call_status_def ex_defs_def ex_collab_noclk_def
        ex_collab_def ex_slave_def ex_fsm_def ex_env_def)

lemma ex_on_wf: "fsm_wf (slvFsm ex_slave_on)"
  by (simp add: ex_slave_on_def ex_slave_def ex_fsm_def fsm_wf_def)

lemma ex_prepare_on:
  "PmSlavePrepareState ex_defs ex_collab ex_slave_on 1 ex_env = (XST_SUCCESS, ex_env)"
  by (simp add: PmSlavePrepareState_def call_status_def ex_defs_def
        ex_collab_def ex_slave_on_def ex_slave_def ex_fsm_def ex_env_def)

lemma ex_apply_on:
  "PmSlaveChangeState_apply ex_slave_on 1 ex_env = (XST_FAILURE, ex_env)"
  by (simp add: PmSlaveChangeState_apply_find[OF ex_on_wf])
     (simp add: ex_slave_on_def ex_slave_def ex_fsm_def)

text \<open>
  Two failed changes of the example slave: to state 2 with a clock module that refuses
  (the preparation fails after the power request), and from state 2 to state 1, for
  which the table has no transition.
\<close>

theorem C4_PmSlaveChangeState_failure_witness:
  "fsm_wf (slvFsm ex_slave) \<and> fsm_wf (slvFsm ex_slave_on)
   \<and> PmSlaveChangeState ex_defs ex_collab_noclk ex_slave 2 ex_env =
       (XST_FAILURE, ex_slave,
        \<lparr>hw = (1, 0), calls = [PowerRequestParent XST_SUCCESS, ClockRequest XST_FAILURE]\<rparr>)
   \<and> PmSlaveChangeState ex_defs ex_collab ex_slave_on 1 ex_env = (XST_FAILURE, ex_slave_on, ex_env)"
proof -
  from C4_PmSlaveChangeState_failure [OF ex_wf, of ex_defs ex_collab_noclk 2 ex_env]
    ex_prepare_noclk
  have a: "PmSlaveChangeState ex_defs ex_collab_noclk ex_slave 2 ex_env =
       (XST_FAILURE, ex_slave,
        \<lparr>hw = (1, 0), calls = [PowerRequestParent XST_SUCCESS, ClockRequest XST_FAILURE]\<rparr>)"
    by blast
  from C4_PmSlaveChangeState_failure [OF ex_on_wf, of ex_defs ex_collab 1 ex_env]
    ex_prepare_on ex_apply_on
  have b: "PmSlaveChangeState ex_defs ex_collab ex_slave_on 1 ex_env =
       (XST_FAILURE, ex_slave_on, ex_env)"
    by blast
  from ex_wf ex_on_wf a b show ?thesis by blast
qed

text \<open>
  Claim C5, as the code has it. An aborted state change undoes nothing: the slave is
  unchanged and, of the calls the change made, none is a clock or power release, so a
  request that the preparation made before the abort stays in force. A failed power
  request is the only call of the change (no clock request follows it), and a failed
  clock request is its last call.
\<close>

theorem C5_PmSlaveChangeState_abort:
  assumes "PmSlaveChangeState d c slave state e = (st, slave', e')" and "st \<noteq> XST_SUCCESS"
  shows "slave' = slave \<and>
         (\<exists>evs. calls e' = calls e @ evs \<and>
            ClockRelease \<notin> set evs \<and> PowerReleaseParent \<notin> set evs \<and>
            (\<forall>r. r \<noteq> XST_SUCCESS \<and> PowerRequestParent r \<in> set evs \<longrightarrow>
                 evs = [PowerRequestParent r]) \<and>
            (\<forall>r. r \<noteq> XST_SUCCESS \<and> ClockRequest r \<in> set evs \<longrightarrow>
                 last evs = ClockRequest r))"
proof -
  obtain st1 e1 where p: "PmSlavePrepareState d c slave state e = (st1, e1)"
    by (cases "PmSlavePrepareState d c slave state e") auto
  from PmSlavePrepareState_calls[OF p] obtain evs1 where
    e1: "calls e1 = calls e @ evs1" and
    shape: "evs1 = [] \<and> st1 = XST_SUCCESS \<or> evs1 = [PowerRequestParent st1] \<and> st1 \<noteq> XST_SUCCESS \<or>
            evs1 = [ClockRequest st1] \<or> evs1 = [PowerRequestParent XST_SUCCESS, ClockRequest st1]
            \<or> evs1 = [PowerRequestParent XST_SUCCESS] \<and> st1 = XST_SUCCESS"
    by blast
  show ?thesis
  proof (cases "st1 = XST_SUCCESS")
    case False
    from PmSlaveChangeState_prepare_fails[OF p False] assms(1)
    have "st = st1" "slave' = slave" "e' = e1" by auto
    with e1 shape False show ?thesis by (intro conjI exI[of _ evs1]) auto
  next
    case True
    obtain st2 e2 where ap: "PmSlaveChangeState_apply slave state e1 = (st2, e2)"
      by (cases "PmSlaveChangeState_apply slave state e1") auto
    have "st2 \<noteq> XST_SUCCESS"
      using assms p ap True by (auto simp: PmSlaveChangeState_def Let_def split: if_splits)
    from PmSlaveChangeState_apply_fails[OF p[unfolded True] ap this] assms(1)
    have eqs: "st = st2" "slave' = slave" "e' = e2" by auto
    from PmSlaveChangeState_apply_calls[OF ap]
    have "calls e2 = calls e @ evs1 \<or> calls e2 = calls e @ (evs1 @ [EnterState state st2])"
      using e1 by auto
    then show ?thesis
    proof
      assume "calls e2 = calls e @ evs1"
      with eqs shape True show ?thesis by (intro conjI exI[of _ evs1]) auto
    next
      assume "calls e2 = calls e @ (evs1 @ [EnterState state st2])"
      with eqs shape True show ?thesis
        by (intro conjI exI[of _ "evs1 @ [EnterState state st2]"]) auto
    qed
  qed
qed


lemma ex_act_wf: "fsm_wf (slvFsm ex_slave_act)"
  by (simp add: ex_slave_act_def ex_slave_def ex_fsm_def fsm_wf_def)

lemma ex_prepare_act:
  "PmSlavePrepareState ex_defs ex_collab ex_slave_act 2 ex_env =
     (XST_SUCCESS, \<lparr>hw = (1, 1), calls = [PowerRequestParent XST_SUCCESS, ClockRequest XST_SUCCESS]\<rparr>)"
  by (simp add: PmSlavePrepareState_def call_status_def ex_defs_def
        ex_collab_def ex_slave_act_def ex_slave_def ex_fsm_def ex_env_def)

lemma ex_apply_act:
  "PmSlaveChangeState_apply ex_slave_act 2 e =
     (XST_FAILURE, \<lparr>hw = hw e, calls = calls e @ [EnterState 2 XST_FAILURE]\<rparr>)"
  by (simp add: PmSlaveChangeState_apply_find[OF ex_act_wf])
     (simp add: ex_slave_act_def ex_slave_def ex_fsm_def call_status_def)

lemma ex_change_act:
  "PmSlaveChangeState ex_defs ex_collab ex_slave_act 2 ex_env =
     (XST_FAILURE, ex_slave_act,
      \<lparr>hw = (1, 1),
       calls = [PowerRequestParent XST_SUCCESS, ClockRequest XST_SUCCESS,
                EnterState 2 XST_FAILURE]\<rparr>)"
  by (simp add: PmSlaveChangeState_def ex_prepare_act ex_apply_act)

lemma ex_change_noclk:
  "PmSlaveChangeState ex_defs ex_collab_noclk ex_slave 2 ex_env =
     (XST_FAILURE, ex_slave,
      \<lparr>hw = (1, 0), calls = [PowerRequestParent XST_SUCCESS, ClockRequest XST_FAILURE]\<rparr>)"
  by (simp add: PmSlaveChangeState_def ex_prepare_noclk)

text \<open>
  A change of the example slave to state 2 whose transition action fails: both requests
  of the preparation were granted, and no release follows.
\<close>

theorem C5_PmSlaveChangeState_abort_witness:
  "PmSlaveChangeState ex_defs ex_collab ex_slave_act 2 ex_env =
     (XST_FAILURE, ex_slave_act,
      \<lparr>hw = (1, 1),
       calls = [PowerRequestParent XST_SUCCESS, ClockRequest XST_SUCCESS,
                EnterState 2 XST_FAILURE]\<rparr>)
   \<and> ClockRelease \<notin> set [PowerRequestParent XST_SUCCESS, ClockRequest XST_SUCCESS,
                EnterState 2 XST_FAILURE]"
  using C5_PmSlaveChangeState_abort [OF ex_change_act] ex_change_act
  by (simp add: ex_env_def)

lemma ex_apply_plain:
  "PmSlaveChangeState_apply ex_slave 2 e = (XST_SUCCESS, e)"
  by (simp add: PmSlaveChangeState_apply_find[OF ex_wf])
     (simp add: ex_slave_def ex_fsm_def)

lemma ex_retry_eq:
  "ex_retry = (XST_SUCCESS, ex_slave_on,
     \<lparr>hw = (2, 1), calls = [PowerRequestParent XST_SUCCESS, ClockRequest XST_FAILURE,
                            PowerRequestParent XST_SUCCESS, ClockRequest XST_SUCCESS]\<rparr>)"
proof -
  have p: "PmSlavePrepareState ex_defs ex_collab ex_slave 2
      \<lparr>hw = (1, 0), calls = [PowerRequestParent XST_SUCCESS, ClockRequest XST_FAILURE]\<rparr> =
     (XST_SUCCESS, \<lparr>hw = (2, 1), calls = [PowerRequestParent XST_SUCCESS, ClockRequest XST_FAILURE,
                            PowerRequestParent XST_SUCCESS, ClockRequest XST_SUCCESS]\<rparr>)"
    by (simp add: PmSlavePrepareState_def call_status_def ex_defs_def
        ex_collab_def ex_slave_def ex_fsm_def)
  have c: "PmSlaveClearAfterState ex_defs ex_collab ex_slave_on 0 e = e" for e
    by (simp add: PmSlaveClearAfterState_def ex_defs_def ex_slave_on_def ex_slave_def ex_fsm_def)
  have n: "ex_slave\<lparr>node := PmNodeUpdateCurrState (node ex_slave) 2\<rparr> = ex_slave_on"
    by (simp add: ex_slave_on_def PmNodeUpdateCurrState_def)
  have cs: "currState (node ex_slave) = 0" by (simp add: ex_slave_def)
  have ea: "ex_env_aborted =
      \<lparr>hw = (1, 0), calls = [PowerRequestParent XST_SUCCESS, ClockRequest XST_FAILURE]\<rparr>"
    by (simp add: ex_env_aborted_def ex_change_noclk)
  show ?thesis
    unfolding ex_retry_def ea
    by (simp add: PmSlaveChangeState_def p ex_apply_plain n c cs)
qed

lemma ex_back_eq:
  "fst ex_back = XST_SUCCESS \<and> currState (node (fst (snd ex_back))) = 0 \<and>
   hw (snd (snd ex_back)) = (1, 0) \<and>
   calls (snd (snd ex_back)) = [PowerRequestParent XST_SUCCESS, ClockRequest XST_FAILURE,
                            PowerRequestParent XST_SUCCESS, ClockRequest XST_SUCCESS,
                            ClockRelease, PowerReleaseParent]"
proof -
  have p: "PmSlavePrepareState ex_defs ex_collab ex_slave_on 0 e = (XST_SUCCESS, e)" for e
    by (simp add: PmSlavePrepareState_def ex_defs_def ex_slave_on_def ex_slave_def ex_fsm_def)
  have a: "PmSlaveChangeState_apply ex_slave_on 0 e = (XST_SUCCESS, e)" for e
    by (simp add: PmSlaveChangeState_apply_find[OF ex_on_wf])
       (simp add: ex_slave_on_def ex_slave_def ex_fsm_def)
  have cs: "currState (node ex_slave_on) = 2" by (simp add: ex_slave_on_def)
  show ?thesis
    unfolding ex_back_def ex_retry_eq
    by (simp add: PmSlaveChangeState_def p a cs)
       (simp add: PmSlaveClearAfterState_def PmNodeUpdateCurrState_def call_void_def
          ex_defs_def ex_slave_on_def ex_slave_def ex_fsm_def ex_collab_def)
qed


text \<open>
  Claim C5 as stated, that every acquisition of an aborted preparation is later
  released, fails:
  when the clock module refuses, the change to state 2 is aborted after a granted power
  request, which is not released. It is not released later either: after a second,
  successful change to state 2 and the change back to state 0, two power requests were
  granted and one was released, so the power parent is still requested once.
\<close>

theorem C5_PmSlaveChangeState_abort_counterexample:
  "fst (PmSlaveChangeState ex_defs ex_collab_noclk ex_slave 2 ex_env) = XST_FAILURE
   \<and> calls (snd (snd (PmSlaveChangeState ex_defs ex_collab_noclk ex_slave 2 ex_env))) =
       [PowerRequestParent XST_SUCCESS, ClockRequest XST_FAILURE]
   \<and> hw (snd (snd (PmSlaveChangeState ex_defs ex_collab_noclk ex_slave 2 ex_env))) = (1, 0)
   \<and> fst ex_back = XST_SUCCESS
   \<and> currState (node (fst (snd ex_back))) = 0
   \<and> calls (snd (snd ex_back)) =
       [PowerRequestParent XST_SUCCESS, ClockRequest XST_FAILURE,
        PowerRequestParent XST_SUCCESS, ClockRequest XST_SUCCESS,
        ClockRelease, PowerReleaseParent]
   \<and> hw (snd (snd ex_back)) = (1, 0)"
  using ex_back_eq by (simp add: ex_change_noclk)

section \<open>Forcing a slave down\<close>

lemma PmSlaveForceDown_loop_map:
  "PmSlaveForceDown_loop d rs =
     map (\<lambda>r. if PM_MASTER_USING_SLAVE_MASK d AND info r \<noteq> 0 then PmRequirementClear d r else r) rs"
  by (induction rs) auto

lemma PmRequirementClear_unused:
  "PM_MASTER_USING_SLAVE_MASK d AND info (PmRequirementClear d r) = 0"
  by (simp add: PmRequirementClear_def bit_eq_iff bit_and_iff bit_not_iff)

lemma PmSlaveGetUsersMask_loop_unused:
  "\<forall>r \<in> set rs. PM_MASTER_USING_SLAVE_MASK d AND info r = 0 \<Longrightarrow>
     PmSlaveGetUsersMask_loop d rs usage = usage"
  by (induction rs arbitrary: usage) auto

lemma PmSlaveChangeState_reqs:
  "reqs (fst (snd (PmSlaveChangeState d c slave state e))) = reqs slave"
  by (simp add: PmSlaveChangeState_def Let_def split: prod.splits)

text \<open>
  Claim C8. \<open>PmSlaveForceDown\<close> clears every requirement whose currently-using flag is
  set and leaves the others as they are. If the current state is state 0 it stops there
  with success and makes no call; otherwise, and only then, its result is that of
  \<open>PmSlaveChangeState\<close> to state 0 on the slave with the cleared requirements, so a
  failure of that change is returned. In every case the requirements of the resulting
  slave are the cleared ones: none has the usage flag, and \<open>PmSlaveGetUsersMask\<close> is 0.
\<close>

theorem C8_PmSlaveForceDown:
  "case PmSlaveForceDown d c slave e of
     (st, slave', e') \<Rightarrow>
       (currState (node slave) = 0 \<longrightarrow>
          st = XST_SUCCESS \<and> e' = e \<and> node slave' = node slave) \<and>
       (currState (node slave) \<noteq> 0 \<longrightarrow>
          (st, slave', e') =
            PmSlaveChangeState d c
              (slave\<lparr>reqs := map (\<lambda>r. if PM_MASTER_USING_SLAVE_MASK d AND info r \<noteq> 0
                                      then PmRequirementClear d r else r) (reqs slave)\<rparr>) 0 e) \<and>
       reqs slave' = map (\<lambda>r. if PM_MASTER_USING_SLAVE_MASK d AND info r \<noteq> 0
                               then PmRequirementClear d r else r) (reqs slave) \<and>
       (\<forall>r \<in> set (reqs slave'). PM_MASTER_USING_SLAVE_MASK d AND info r = 0) \<and>
       PmSlaveGetUsersMask d slave' = 0"
proof -
  let ?clr = "\<lambda>r. if PM_MASTER_USING_SLAVE_MASK d AND info r \<noteq> 0 then PmRequirementClear d r else r"
  let ?s1 = "slave\<lparr>reqs := map ?clr (reqs slave)\<rparr>"
  obtain st slave' e' where R: "PmSlaveForceDown d c slave e = (st, slave', e')"
    by (cases "PmSlaveForceDown d c slave e") auto
  have z: "currState (node slave) = 0 \<longrightarrow> st = XST_SUCCESS \<and> e' = e \<and> node slave' = node slave"
    using R by (auto simp: PmSlaveForceDown_def Let_def)
  have nz: "currState (node slave) \<noteq> 0 \<longrightarrow> (st, slave', e') = PmSlaveChangeState d c ?s1 0 e"
    using R by (auto simp: PmSlaveForceDown_def Let_def PmSlaveForceDown_loop_map)
  have rq: "reqs slave' = map ?clr (reqs slave)"
  proof (cases "currState (node slave) = 0")
    case True
    with R show ?thesis by (auto simp: PmSlaveForceDown_def Let_def PmSlaveForceDown_loop_map)
  next
    case False
    with nz have eq: "PmSlaveChangeState d c ?s1 0 e = (st, slave', e')" by simp
    have "reqs (fst (snd (PmSlaveChangeState d c ?s1 0 e))) = reqs ?s1"
      by (rule PmSlaveChangeState_reqs)
    then show ?thesis unfolding eq by simp
  qed
  have un: "\<forall>r \<in> set (reqs slave'). PM_MASTER_USING_SLAVE_MASK d AND info r = 0"
    unfolding rq by (auto simp: PmRequirementClear_unused)
  have um: "PmSlaveGetUsersMask d slave' = 0"
    using un by (simp add: PmSlaveGetUsersMask_def PmSlaveGetUsersMask_loop_unused)
  show ?thesis unfolding R prod.case by (intro conjI z nz rq un um)
qed

text \<open>
  The example slave in state 2 with its two masters in use: forcing it down succeeds,
  releases the clock and the power parent, ends in state 0, and leaves no user.
\<close>

theorem C8_PmSlaveForceDown_witness:
  "PmSlaveGetUsersMask ex_defs ex_slave_on = 3
   \<and> fst (PmSlaveForceDown ex_defs ex_collab ex_slave_on ex_env) = XST_SUCCESS
   \<and> currState (node (fst (snd (PmSlaveForceDown ex_defs ex_collab ex_slave_on ex_env)))) = 0
   \<and> calls (snd (snd (PmSlaveForceDown ex_defs ex_collab ex_slave_on ex_env))) =
        [ClockRelease, PowerReleaseParent]
   \<and> PmSlaveGetUsersMask ex_defs
        (fst (snd (PmSlaveForceDown ex_defs ex_collab ex_slave_on ex_env))) = 0"
proof -
  have a: "PmSlaveGetUsersMask ex_defs ex_slave_on = 3" by code_simp
  have b: "fst (PmSlaveForceDown ex_defs ex_collab ex_slave_on ex_env) = XST_SUCCESS" by code_simp
  have c: "currState (node (fst (snd (PmSlaveForceDown ex_defs ex_collab ex_slave_on ex_env)))) = 0"
    by code_simp
  have d: "calls (snd (snd (PmSlaveForceDown ex_defs ex_collab ex_slave_on ex_env))) =
        [ClockRelease, PowerReleaseParent]" by code_simp
  obtain st slave' e' where
    R: "PmSlaveForceDown ex_defs ex_collab ex_slave_on ex_env = (st, slave', e')"
    by (cases "PmSlaveForceDown ex_defs ex_collab ex_slave_on ex_env") auto
  from C8_PmSlaveForceDown [where d = ex_defs and c = ex_collab and slave = ex_slave_on
      and e = ex_env, unfolded R prod.case]
  have "PmSlaveGetUsersMask ex_defs slave' = 0" by (elim conjE)
  then have "PmSlaveGetUsersMask ex_defs
        (fst (snd (PmSlaveForceDown ex_defs ex_collab ex_slave_on ex_env))) = 0"
    by (simp add: R)
  with a b c d show ?thesis by blast
qed



section \<open>Wake-up latency\<close>

text \<open>
  Claim C10. For a slave with a power parent whose node class has no
  \<open>getWakeUpLatency\<close> method, \<open>PmSlaveGetWakeUpLatency\<close> returns \<open>XST_NO_FEATURE\<close> and
  the caller's variable holds the latency of the slave from its current state, whatever
  it held before the call: the store precedes the check of the parent.
\<close>

theorem C10_PmSlaveGetWakeUpLatency:
  assumes "parent (node slave) = Some powerNode" and "getWakeUpLatency powerNode = None"
  shows "PmSlaveGetWakeUpLatency slave lat w =
           Some (XST_NO_FEATURE, PmGetLatencyFromState slave (currState (node slave)))"
  using assms by (simp add: PmSlaveGetWakeUpLatency_def)

text \<open>
  The parent of the example slave has no such method; the variable held 7 and holds the
  latency 100 of state 0 after the call.
\<close>

theorem C10_PmSlaveGetWakeUpLatency_witness:
  "PmSlaveGetWakeUpLatency ex_slave 7 (0, 0) = Some (XST_NO_FEATURE, 100)"
proof -
  have "PmGetLatencyFromState ex_slave (currState (node ex_slave)) = 100" by code_simp
  with C10_PmSlaveGetWakeUpLatency [of ex_slave "\<lparr>getWakeUpLatency = None\<rparr>" 7 "(0, 0)"]
  show ?thesis by (simp add: ex_slave_def)
qed

section \<open>Configuring a slave\<close>

lemma filter_upt_Cons:
  assumes "filter P [0..<N] = n # ns"
  shows "\<exists>vs. [0..<N] = [0..<n] @ n # vs \<and> (\<forall>u < n. \<not> P u) \<and> P n \<and> ns = filter P vs \<and> n \<notin> set vs"
proof -
  from assms obtain us vs where
    sp: "[0..<N] = us @ n # vs" and nu: "\<forall>u \<in> set us. \<not> P u" and pn: "P n" and
    ns: "ns = filter P vs"
    by (auto simp: filter_eq_Cons_iff)
  have len: "length us < N" using arg_cong[OF sp, of length] by simp
  have "[0..<N] ! length us = n" unfolding sp by simp
  with len have n: "length us = n" by simp
  have "take n [0..<N] = us" unfolding sp using n by simp
  then have us: "us = [0..<n]" using len n by (simp add: take_upt)
  have "distinct [0..<N]" by simp
  then have "n \<notin> set vs" unfolding sp by simp
  with sp nu pn ns us show ?thesis by auto
qed

lemma ctz_set_bits:
  assumes "set_bits w = n # ns"
  shows "ctz w = n"
proof -
  from filter_upt_Cons[OF assms[unfolded set_bits_def]] obtain vs where
    sp: "[0..<32] = [0..<n] @ n # vs" and nu: "\<forall>u < n. \<not> bit w u" and pn: "bit w n"
    by blast
  have "takeWhile (\<lambda>k. \<not> bit w k) ([0..<n] @ n # vs) = [0..<n]"
    using nu pn by (simp add: takeWhile_tail)
  then show ?thesis by (simp add: ctz_def sp)
qed

lemma set_bits_clear:
  assumes "set_bits w = n # ns"
  shows "set_bits (w AND NOT (push_bit n 1)) = ns"
proof -
  from filter_upt_Cons[OF assms[unfolded set_bits_def]] obtain vs where
    sp: "[0..<32] = [0..<n] @ n # vs" and nu: "\<forall>u < n. \<not> bit w u" and pn: "bit w n" and
    ns: "ns = filter (bit w) vs" and nv: "n \<notin> set vs"
    by blast
  have b: "bit (w AND NOT (2 ^ n)) k \<longleftrightarrow> bit w k \<and> k \<noteq> n" for k
    by (auto simp: bit_and_iff bit_not_iff bit_exp_iff dest: bit_imp_le_length)
  have bf: "bit (w AND NOT (2 ^ n)) = (\<lambda>k. bit w k \<and> k \<noteq> n)"
    by (rule ext) (rule b)
  have "filter (\<lambda>k. bit w k \<and> k \<noteq> n) [0..<n] = []" using nu by (simp add: filter_empty_conv)
  moreover have "filter (\<lambda>k. bit w k \<and> k \<noteq> n) vs = filter (bit w) vs"
    using nv by (intro filter_cong) auto
  ultimately show ?thesis by (simp add: set_bits_def bf sp ns)
qed

lemma unat_popcount: "unat (popcount w) = length (set_bits w)"
proof -
  have "length (filter (bit w) [0..<32]) \<le> 32"
    using length_filter_le[of "bit w" "[0..<32]"] by simp
  then have "length (filter (bit w) [0..<32]) < 2 ^ LENGTH(32)" by simp
  then show ?thesis by (simp add: popcount_def set_bits_def unat_of_nat)
qed

lemma PmSlaveSetConfig_loop_bind:
  "unat masterCnt - unat i = length (set_bits w) \<Longrightarrow> unat i \<le> unat masterCnt \<Longrightarrow>
     PmSlaveSetConfig_loop m slave w i masterCnt = bind_masks m slave (set_bits w)"
proof (induction ns \<equiv> "set_bits w" arbitrary: w i slave)
  case Nil
  then have "\<not> i < masterCnt" by (simp add: word_less_nat_alt)
  then show ?case using Nil.hyps
    by (subst PmSlaveSetConfig_loop.simps) (simp flip: Nil.hyps)
next
  case (Cons n ns)
  note sb = Cons.hyps(2)[symmetric]
  from Cons.prems sb have lt: "i < masterCnt" by (simp add: word_less_nat_alt)
  have cz: "ctz w = n" by (rule ctz_set_bits[OF sb])
  have cl: "set_bits (w AND NOT (2 ^ n)) = ns" using set_bits_clear[OF sb] by simp
  have su: "unat (i + 1) = Suc (unat i)" by (rule unat_succ[OF lt])
  have rec: "PmSlaveSetConfig_loop m s' (w AND NOT (2 ^ n)) (i + 1) masterCnt =
      bind_masks m s' ns" for s'
    using Cons.hyps(1)[of "w AND NOT (2 ^ n)" "i + 1" s'] Cons.prems sb lt
    by (simp add: su cl word_less_nat_alt)
  show ?case
    by (subst PmSlaveSetConfig_loop.simps)
       (simp add: lt cz sb rec Let_def split: option.splits prod.splits)
qed

lemma PmSlaveSetConfig_bind:
  "PmSlaveSetConfig d m slave policy perms =
     bind_masks m
       (if 0 \<noteq> (policy AND PM_SLAVE_FLAG_IS_SHAREABLE d)
        then slave\<lparr>flags := flags slave OR PM_SLAVE_FLAG_IS_SHAREABLE d\<rparr> else slave)
       (set_bits perms)"
  by (simp add: PmSlaveSetConfig_def Let_def PmSlaveSetConfig_loop_bind unat_popcount)

lemma bind_masks_append:
  "bind_masks m slave pre = (XST_SUCCESS, slave2) \<Longrightarrow>
     bind_masks m slave (pre @ rest) = bind_masks m slave2 rest"
  by (induction pre arbitrary: slave) (auto split: option.splits prod.splits if_splits)


text \<open>
  Claim C9, as the code has it. \<open>PmSlaveSetConfig\<close> handles the set bits of \<open>perms\<close>
  lowest first. If the masks below bit \<open>n\<close> were resolved and bound, leaving the slave
  \<open>slave2\<close>, and the mask of bit \<open>n\<close> does not resolve to a master, the call returns
  \<open>XST_FAILURE\<close> and the slave is \<open>slave2\<close>: the failure of the first unresolved mask is
  propagated, nothing is bound for that mask or a higher one, and the bindings made for the
  lower masks (with the shareable flag, where the policy set it) are kept.
\<close>

theorem C9_PmSlaveSetConfig_unresolved:
  assumes "set_bits perms = pre @ n # post"
    and "bind_masks m
           (if 0 \<noteq> (policy AND PM_SLAVE_FLAG_IS_SHAREABLE d)
            then slave\<lparr>flags := flags slave OR PM_SLAVE_FLAG_IS_SHAREABLE d\<rparr> else slave)
           pre = (XST_SUCCESS, slave2)"
    and "PmGetMasterByIpiMask m (push_bit n 1) = None"
  shows "PmSlaveSetConfig d m slave policy perms = (XST_FAILURE, slave2)"
proof -
  have "PmSlaveSetConfig d m slave policy perms = bind_masks m slave2 (n # post)"
    unfolding PmSlaveSetConfig_bind assms(1) by (rule bind_masks_append[OF assms(2)])
  also have "\<dots> = (XST_FAILURE, slave2)" using assms(3) by simp
  finally show ?thesis .
qed

lemma ex_set_bits_5: "set_bits 5 = [0] @ 2 # []"
  by code_simp

text \<open>
  The masks 1 and 4 with a registry that knows the mask 1 only: the call fails at the
  mask 4, and the binding of the first master is in the slave.
\<close>

theorem C9_PmSlaveSetConfig_unresolved_witness:
  "PmSlaveSetConfig ex_defs ex_masters ex_slave_new 0 5 =
     (XST_FAILURE,
      ex_slave_new\<lparr>reqs := [\<lparr>master = \<lparr>ipiMask = 1\<rparr>, info = 0, currReq = 0,
                               latencyReq = MAX_LATENCY\<rparr>]\<rparr>)"
proof -
  have b: "bind_masks ex_masters
       (if 0 \<noteq> (0 AND PM_SLAVE_FLAG_IS_SHAREABLE ex_defs)
        then ex_slave_new\<lparr>flags := flags ex_slave_new OR PM_SLAVE_FLAG_IS_SHAREABLE ex_defs\<rparr>
        else ex_slave_new) [0] =
     (XST_SUCCESS, ex_slave_new\<lparr>reqs := [\<lparr>master = \<lparr>ipiMask = 1\<rparr>, info = 0, currReq = 0,
                               latencyReq = MAX_LATENCY\<rparr>]\<rparr>)"
    by (simp add: ex_masters_def PmRequirementAdd_spec_def ex_slave_new_def)
  have g: "PmGetMasterByIpiMask ex_masters (push_bit 2 1) = None"
    by (simp add: ex_masters_def)
  from C9_PmSlaveSetConfig_unresolved [OF ex_set_bits_5 b g] show ?thesis .
qed

text \<open>
  Claim C9 as stated, that a failed configuration leaves no binding of its own behind,
  fails: for
  the masks 1 and 2, of which only the first resolves, the call on a slave without
  requirements returns \<open>XST_FAILURE\<close> and the slave holds the binding of the first
  master, and the shareable flag.
\<close>

theorem C9_PmSlaveSetConfig_unresolved_counterexample:
  "fst (PmSlaveSetConfig ex_defs ex_masters ex_slave_new 1 3) = XST_FAILURE
   \<and> reqs ex_slave_new = []
   \<and> reqs (snd (PmSlaveSetConfig ex_defs ex_masters ex_slave_new 1 3)) =
       [\<lparr>master = \<lparr>ipiMask = 1\<rparr>, info = 0, currReq = 0, latencyReq = MAX_LATENCY\<rparr>]
   \<and> flags (snd (PmSlaveSetConfig ex_defs ex_masters ex_slave_new 1 3)) = 1"
  by code_simp

end
